theory Spec2Isabelle
  imports Complex_Main "HOL-Library.Multiset" "HOL-Library.Word" "HOL-Library.AList"
    "HOL-Library.Log_Nat"
begin

unbundle bit_operations_syntax

section \<open>Go integers, slices and panics\<close>

text \<open>
  Go's \<open>int\<close> is a 64-bit two's-complement integer on the platforms the service is
  built for. Values are modelled as \<open>int\<close>; \<open>wrap64\<close> is the wrap-around of \<open>+\<close>
  and \<open>-\<close>, written out at every arithmetic operation of the source whose operands
  are not bounded by a loop condition.
\<close>

definition is_int64 :: "int \<Rightarrow> bool" where
  "is_int64 x \<longleftrightarrow> - 9223372036854775808 \<le> x \<and> x \<le> 9223372036854775807"

definition wrap64 :: "int \<Rightarrow> int" where
  "wrap64 x = (x + 9223372036854775808) mod 18446744073709551616 - 9223372036854775808"

definition add64 :: "int \<Rightarrow> int \<Rightarrow> int" where
  "add64 a b = wrap64 (a + b)"

definition sub64 :: "int \<Rightarrow> int \<Rightarrow> int" where
  "sub64 a b = wrap64 (a - b)"

text \<open>\<open>math.MaxInt32\<close>, the value the optimizer uses for "impossible".\<close>

definition MaxInt32 :: int where
  "MaxInt32 = 2147483647"

text \<open>
  The run-time panics \<open>Calculate\<close> could raise: \<open>make\<close> with a length out of range, and
  an index outside a slice.
\<close>

datatype panic = MakeSliceLenOutOfRange | IndexOutOfRange

text \<open>
  \<open>maxAlloc\<close> of the Go runtime, the size in bytes of the largest allocation it accepts:
  \<open>2^48\<close> on linux/amd64, the platform the Makefile builds for.
\<close>

definition maxAlloc :: int where
  "maxAlloc = 281474976710656"

text \<open>
  \<open>make([]int, n)\<close>: the runtime's \<open>makeslice\<close> panics with "len out of range" when \<open>n\<close>
  is negative or when the \<open>n\<close> elements of 8 bytes take more than \<open>maxAlloc\<close> bytes, that
  is when \<open>n\<close> exceeds \<open>2^45\<close>. Any other length gives a zeroed slice of length \<open>n\<close>.
  The machine running out of memory below that length (a fatal error of the runtime, which
  depends on the machine and is not a panic) is not modelled.
\<close>

definition make_slice :: "int \<Rightarrow> panic + int list" where
  "make_slice n =
     (if n < 0 \<or> 8 * n > maxAlloc then Inl MakeSliceLenOutOfRange
      else Inr (replicate (nat n) 0))"

text \<open>\<open>xs[i]\<close> as a read and \<open>xs[i] = v\<close> as a write, with Go's bounds check.\<close>

definition index :: "int list \<Rightarrow> int \<Rightarrow> panic + int" where
  "index xs i = (if 0 \<le> i \<and> i < int (length xs) then Inr (xs ! nat i) else Inl IndexOutOfRange)"

definition store :: "int list \<Rightarrow> int \<Rightarrow> int \<Rightarrow> panic + int list" where
  "store xs i v = (if 0 \<le> i \<and> i < int (length xs) then Inr (xs[nat i := v]) else Inl IndexOutOfRange)"

section \<open>SHA-256 (crypto/sha256, after FIPS 180-4)\<close>

text \<open>
  The cache key is a digest, so the standard library's \<open>sha256.Sum256\<close> is part of
  what \<open>generateKey\<close> computes. It is written out here over 32-bit words; a message is
  a list of bytes.
\<close>

type_synonym byte = "8 word"

definition K256 :: "32 word list" where
  "K256 =
    [1116352408, 1899447441, 3049323471, 3921009573, 961987163, 1508970993,
     2453635748, 2870763221, 3624381080, 310598401, 607225278, 1426881987,
     1925078388, 2162078206, 2614888103, 3248222580, 3835390401, 4022224774,
     264347078, 604807628, 770255983, 1249150122, 1555081692, 1996064986,
     2554220882, 2821834349, 2952996808, 3210313671, 3336571891, 3584528711,
     113926993, 338241895, 666307205, 773529912, 1294757372, 1396182291,
     1695183700, 1986661051, 2177026350, 2456956037, 2730485921, 2820302411,
     3259730800, 3345764771, 3516065817, 3600352804, 4094571909, 275423344,
     430227734, 506948616, 659060556, 883997877, 958139571, 1322822218,
     1537002063, 1747873779, 1955562222, 2024104815, 2227730452, 2361852424,
     2428436474, 2756734187, 3204031479, 3329325298]"

definition H256 :: "32 word list" where
  "H256 =
    [1779033703, 3144134277, 1013904242, 2773480762, 1359893119, 2600822924,
     528734635, 1541459225]"

definition Ch :: "32 word \<Rightarrow> 32 word \<Rightarrow> 32 word \<Rightarrow> 32 word" where
  "Ch x y z = (x AND y) XOR (NOT x AND z)"

definition Maj :: "32 word \<Rightarrow> 32 word \<Rightarrow> 32 word \<Rightarrow> 32 word" where
  "Maj x y z = (x AND y) XOR (x AND z) XOR (y AND z)"

definition Sigma0 :: "32 word \<Rightarrow> 32 word" where
  "Sigma0 x = word_rotr 2 x XOR word_rotr 13 x XOR word_rotr 22 x"

definition Sigma1 :: "32 word \<Rightarrow> 32 word" where
  "Sigma1 x = word_rotr 6 x XOR word_rotr 11 x XOR word_rotr 25 x"

definition sigma0 :: "32 word \<Rightarrow> 32 word" where
  "sigma0 x = word_rotr 7 x XOR word_rotr 18 x XOR drop_bit 3 x"

definition sigma1 :: "32 word \<Rightarrow> 32 word" where
  "sigma1 x = word_rotr 17 x XOR word_rotr 19 x XOR drop_bit 10 x"

text \<open>Big-endian encodings: the 64-bit message length, a word from and to 4 bytes.\<close>

definition be64 :: "64 word \<Rightarrow> byte list" where
  "be64 w = map (\<lambda>i. ucast (drop_bit (8 * (7 - i)) w)) [0..<8]"

definition be32 :: "byte list \<Rightarrow> 32 word" where
  "be32 bs = foldl (\<lambda>w b. push_bit 8 w OR ucast b) 0 (take 4 bs)"

definition bytes_of_word :: "32 word \<Rightarrow> byte list" where
  "bytes_of_word w = map (\<lambda>i. ucast (drop_bit (8 * (3 - i)) w)) [0..<4]"

definition pad :: "byte list \<Rightarrow> byte list" where
  "pad m = m @ [128] @ replicate ((119 - length m mod 64) mod 64) 0 @ be64 (of_nat (8 * length m))"

primrec chunks :: "nat \<Rightarrow> nat \<Rightarrow> 'a list \<Rightarrow> 'a list list" where
  "chunks 0 sz xs = []"
| "chunks (Suc k) sz xs = take sz xs # chunks k sz (drop sz xs)"

text \<open>The message schedule: 16 words of the block, expanded to 64.\<close>

primrec expand :: "nat \<Rightarrow> 32 word list \<Rightarrow> 32 word list" where
  "expand 0 w = w"
| "expand (Suc k) w =
     expand k (w @ [sigma1 (w ! (length w - 2)) + w ! (length w - 7)
                    + sigma0 (w ! (length w - 15)) + w ! (length w - 16)])"

definition schedule :: "byte list \<Rightarrow> 32 word list" where
  "schedule blk = expand 48 (map be32 (chunks 16 4 blk))"

fun sha_round :: "32 word list \<Rightarrow> 32 word \<times> 32 word \<Rightarrow> 32 word list" where
  "sha_round [a, b, c, d, e, f, g, h] (k, w) =
     (let t1 = h + Sigma1 e + Ch e f g + k + w;
          t2 = Sigma0 a + Maj a b c
      in [t1 + t2, a, b, c, d + t1, e, f, g])"
| "sha_round s kw = s"

definition compress :: "32 word list \<Rightarrow> byte list \<Rightarrow> 32 word list" where
  "compress hs blk = map2 (+) hs (foldl sha_round hs (zip K256 (schedule blk)))"

definition sha256 :: "byte list \<Rightarrow> byte list" where
  "sha256 m =
     (let p = pad m
      in concat (map bytes_of_word (foldl compress H256 (chunks (length p div 64) 64 p))))"

section \<open>The cache key (internal/cache/cache.go)\<close>

text \<open>
  \<open>fmt.Sprintf\<close>: \<open>%d\<close> prints an \<open>int\<close> in decimal, \<open>%v\<close> prints a slice of \<open>int\<close> as
  its elements in decimal, separated by one space, inside square brackets, and \<open>%x\<close>
  prints each byte as two lower-case hexadecimal digits.
\<close>

definition digit_char :: "nat \<Rightarrow> char" where
  "digit_char n = ''0123456789abcdef'' ! n"

function digits :: "nat \<Rightarrow> string" where
  "digits n = (if n < 10 then [digit_char n] else digits (n div 10) @ [digit_char (n mod 10)])"
  by pat_completeness auto
termination
  by (relation "measure id") auto

declare digits.simps [simp del]

definition fmt_d :: "int \<Rightarrow> string" where
  "fmt_d i = (if i < 0 then CHR ''-'' # digits (nat (- i)) else digits (nat i))"

fun spaced :: "string list \<Rightarrow> string" where
  "spaced [] = []"
| "spaced [s] = s"
| "spaced (s # t # rest) = s @ CHR '' '' # spaced (t # rest)"

definition fmt_v :: "int list \<Rightarrow> string" where
  "fmt_v xs = CHR ''['' # spaced (map fmt_d xs) @ [CHR '']'']"

definition fmt_x :: "byte list \<Rightarrow> string" where
  "fmt_x bs = concat (map (\<lambda>b. [digit_char (unat b div 16), digit_char (unat b mod 16)]) bs)"

definition bytes_of_string :: "string \<Rightarrow> byte list" where
  "bytes_of_string s = map (\<lambda>c. of_nat (of_char c)) s"

definition CacheKeyPrefix :: string where
  "CacheKeyPrefix = ''packcalc:''"

text \<open>The string that is hashed: \<open>fmt.Sprintf("%d:%v", items, sorted)\<close>.\<close>

definition key_data :: "int \<Rightarrow> int list \<Rightarrow> string" where
  "key_data items packSizes = fmt_d items @ CHR '':'' # fmt_v (sort packSizes)"

definition generateKey :: "int \<Rightarrow> int list \<Rightarrow> string" where
  "generateKey items packSizes =
     CacheKeyPrefix @ fmt_x (take 16 (sha256 (bytes_of_string (key_data items packSizes))))"

section \<open>Arithmetic on \<open>float64\<close>\<close>

text \<open>
  A finite \<open>float64\<close> is modelled by the rational number it denotes. Go's conversion of
  an \<open>int64\<close>, its division and its multiplication give the exact result rounded to the
  nearest number with a significand of 53 bits, ties to the even significand (IEEE 754);
  \<open>f64_round\<close> is that rounding. The exponent is not bounded here: the values \<open>GetStats\<close>
  computes are quotients of two 64-bit integers and their product with 100, far from
  overflow and underflow.
\<close>

text \<open>\<open>pow2 k\<close> is \<open>2^k\<close> for an integer \<open>k\<close>.\<close>

definition pow2 :: "int \<Rightarrow> rat" where
  "pow2 k = (if 0 \<le> k then 2 ^ nat k else 1 / 2 ^ nat (- k))"

text \<open>
  The binary exponent of a positive \<open>x\<close>: the \<open>e\<close> with \<open>2^e \<le> x < 2^(e+1)\<close>, found from
  the bit lengths of numerator and denominator.
\<close>

definition floor_log2 :: "rat \<Rightarrow> int" where
  "floor_log2 x =
     (case quotient_of x of
        (a, b) \<Rightarrow>
          let d = bitlen a - bitlen b
          in if pow2 d \<le> x then d else d - 1)"

text \<open>Rounding to the nearest integer, a tie going to the even one.\<close>

definition round_half_even :: "rat \<Rightarrow> int" where
  "round_half_even y =
     (let f = \<lfloor>y\<rfloor>; r = y - of_int f
      in if r < 1 / 2 then f else if 1 / 2 < r then f + 1 else if even f then f else f + 1)"

text \<open>
  Rounding to 53 significant bits: \<open>ulp\<close> is the distance between neighbouring
  \<open>float64\<close> values at the size of \<open>x\<close>.
\<close>

definition f64_round :: "rat \<Rightarrow> rat" where
  "f64_round x =
     (if x = 0 then 0
      else
        let ulp = pow2 (floor_log2 \<bar>x\<bar> - 52)
        in sgn x * of_int (round_half_even (\<bar>x\<bar> / ulp)) * ulp)"

text \<open>\<open>float64(n)\<close>, \<open>a / b\<close> and \<open>a * b\<close> on \<open>float64\<close>.\<close>

definition f64_of_int :: "int \<Rightarrow> rat" where
  "f64_of_int n = f64_round (of_int n)"

definition f64_div :: "rat \<Rightarrow> rat \<Rightarrow> rat" where
  "f64_div a b = f64_round (a / b)"

definition f64_mul :: "rat \<Rightarrow> rat \<Rightarrow> rat" where
  "f64_mul a b = f64_round (a * b)"

section \<open>The adaptive cache (internal/cache/cache.go)\<close>

text \<open>
  \<open>time.Duration\<close> is a 64-bit count of nanoseconds: \<open>InitialTTL\<close> is five minutes and
  \<open>MaxTTL\<close> is 24 hours.
\<close>

definition InitialTTL :: int where
  "InitialTTL = 300000000000"

definition MaxTTL :: int where
  "MaxTTL = 86400000000000"

definition StatsHitsKey :: string where
  "StatsHitsKey = ''packcalc:stats:hits''"

definition StatsMissesKey :: string where
  "StatsMissesKey = ''packcalc:stats:misses''"

text \<open>\<open>CachedAt\<close> is a point in time, kept as a number; \<open>CurrentTTL\<close> is a duration.\<close>

record CachedResult =
  Items :: int
  PackSizes :: "int list"
  Result :: "int \<rightharpoonup> int"
  TotalItems :: int
  TotalPacks :: int
  Waste :: int
  CalculationTimeMs :: int
  CachedAt :: int
  HitCount :: int
  CurrentTTL :: int

text \<open>
  \<open>CacheStats\<close>. \<open>HitRate\<close> is a \<open>float64\<close>. \<open>MemoryUsed\<close> and \<open>Uptime\<close>, two strings
  cut out of the server's INFO reply, are left out.
\<close>

record CacheStats =
  Hits :: int
  Misses :: int
  HitRate :: rat
  TotalKeys :: int

text \<open>
  The key/value store behind the cache (the Redis server seen through its client), as far
  as the cache uses it. A key holds the JSON of a \<open>CachedResult\<close>, which
  \<open>json.Unmarshal\<close> gives back as it was marshalled, or a counter; with it the time to
  live it was stored with (0 for a key that does not expire). A store that cannot be
  reached answers every command with an error.
\<close>

datatype stored = Entry CachedResult | Count int

record Redis =
  reachable :: bool
  entries :: "(string \<times> stored \<times> int) list"

datatype 'a reply = RedisNil | RedisErr | RedisOk 'a

definition redis_get :: "Redis \<Rightarrow> string \<Rightarrow> stored reply" where
  "redis_get r key =
     (if \<not> reachable r then RedisErr
      else case map_of (entries r) key of
             None \<Rightarrow> RedisNil
           | Some (v, ttl) \<Rightarrow> RedisOk v)"

text \<open>\<open>SET key value EX ttl\<close>; the flag is false when the command fails.\<close>

definition redis_set :: "Redis \<Rightarrow> string \<Rightarrow> stored \<Rightarrow> int \<Rightarrow> bool \<times> Redis" where
  "redis_set r key v ttl =
     (if \<not> reachable r then (False, r)
      else (True, r\<lparr>entries := AList.update key (v, ttl) (entries r)\<rparr>))"

text \<open>
  \<open>INCR key\<close>: a missing key counts from 0; the command fails, and changes nothing, on
  a value that is not a number or on a counter at the largest 64-bit value.
\<close>

definition redis_incr :: "Redis \<Rightarrow> string \<Rightarrow> Redis" where
  "redis_incr r key =
     (if \<not> reachable r then r
      else case map_of (entries r) key of
             None \<Rightarrow> r\<lparr>entries := AList.update key (Count 1, 0) (entries r)\<rparr>
           | Some (Count n, ttl) \<Rightarrow>
               if n = 9223372036854775807 then r
               else r\<lparr>entries := AList.update key (Count (n + 1), ttl) (entries r)\<rparr>
           | Some (Entry e, ttl) \<Rightarrow> r)"

text \<open>
  \<open>hits, _ := c.client.Get(c.ctx, key).Int64()\<close>, with the error dropped. A missing key,
  a failed command and a value that is not a number read as 0. The client parses the
  digits with \<open>strconv.ParseInt\<close>, which for a number outside the 64-bit range returns
  the nearest 64-bit value next to its error.
\<close>

definition redis_get_int64 :: "Redis \<Rightarrow> string \<Rightarrow> int" where
  "redis_get_int64 r key =
     (case redis_get r key of
        RedisOk (Count n) \<Rightarrow>
          if n < - 9223372036854775808 then - 9223372036854775808
          else if 9223372036854775807 < n then 9223372036854775807
          else n
      | RedisOk (Entry e) \<Rightarrow> 0
      | RedisNil \<Rightarrow> 0
      | RedisErr \<Rightarrow> 0)"

text \<open>\<open>KEYS prefix*\<close>; on failure the client returns no keys.\<close>

definition redis_keys :: "Redis \<Rightarrow> string \<Rightarrow> string list" where
  "redis_keys r prefix =
     (if \<not> reachable r then []
      else filter (\<lambda>k. take (length prefix) k = prefix) (map fst (entries r)))"

record Cache =
  client :: Redis
  enabled :: bool

definition mul64 :: "int \<Rightarrow> int \<Rightarrow> int" where
  "mul64 a b = wrap64 (a * b)"

definition incrementHits :: "Cache \<Rightarrow> Cache" where
  "incrementHits c = c\<lparr>client := redis_incr (client c) StatsHitsKey\<rparr>"

definition incrementMisses :: "Cache \<Rightarrow> Cache" where
  "incrementMisses c = c\<lparr>client := redis_incr (client c) StatsMissesKey\<rparr>"

text \<open>
  The internal \<open>set\<close>: marshal and store with the given time to live. The flag is
  false when an error is returned.
\<close>

definition set_entry :: "Cache \<Rightarrow> string \<Rightarrow> CachedResult \<Rightarrow> int \<Rightarrow> bool \<times> Cache" where
  "set_entry c key result ttl =
     (case redis_set (client c) key (Entry result) ttl of
        (ok, r) \<Rightarrow> (ok, c\<lparr>client := r\<rparr>))"

text \<open>
  \<open>Get\<close> returns the entry (or \<open>None\<close> for \<open>nil, false\<close>) and the cache after the call.
  A failure of the write back is logged and otherwise ignored.
\<close>

definition Get :: "Cache \<Rightarrow> int \<Rightarrow> int list \<Rightarrow> CachedResult option \<times> Cache" where
  "Get c items packSizes =
     (if \<not> enabled c then (None, c)
      else
        let key = generateKey items packSizes
        in case redis_get (client c) key of
             RedisNil \<Rightarrow> (None, incrementMisses c)
           | RedisErr \<Rightarrow> (None, incrementMisses c)
           | RedisOk (Count n) \<Rightarrow> (None, incrementMisses c)
           | RedisOk (Entry result) \<Rightarrow>
               let result1 = result\<lparr>HitCount := add64 (HitCount result) 1\<rparr>;
                   newTTL = mul64 (CurrentTTL result1) 2;
                   newTTL' = (if newTTL > MaxTTL then MaxTTL else newTTL);
                   result2 = result1\<lparr>CurrentTTL := newTTL'\<rparr>;
                   c1 = snd (set_entry c key result2 newTTL')
               in (Some result2, incrementHits c1))"

text \<open>\<open>Set\<close>; \<open>now\<close> is the value of \<open>time.Now()\<close>. The flag is false when an error is returned.\<close>

definition Set ::
  "Cache \<Rightarrow> int \<Rightarrow> int list \<Rightarrow> (int \<rightharpoonup> int) \<Rightarrow> int \<Rightarrow> int \<Rightarrow> int \<Rightarrow> int \<Rightarrow> int \<Rightarrow> bool \<times> Cache" where
  "Set c items packSizes result totalItems totalPacks waste calcTime now =
     (if \<not> enabled c then (True, c)
      else
        let key = generateKey items packSizes;
            cached = \<lparr>Items = items, PackSizes = packSizes, Result = result,
                      TotalItems = totalItems, TotalPacks = totalPacks, Waste = waste,
                      CalculationTimeMs = calcTime, CachedAt = now, HitCount = 0,
                      CurrentTTL = InitialTTL\<rparr>
        in set_entry c key cached InitialTTL)"

definition GetStats :: "Cache \<Rightarrow> CacheStats" where
  "GetStats c =
     (if \<not> enabled c then \<lparr>Hits = 0, Misses = 0, HitRate = 0, TotalKeys = 0\<rparr>
      else
        let hits = redis_get_int64 (client c) StatsHitsKey;
            misses = redis_get_int64 (client c) StatsMissesKey;
            total = add64 hits misses;
            hitRate = (if total > 0
                       then f64_mul (f64_div (f64_of_int hits) (f64_of_int total)) 100
                       else 0);
            keys = redis_keys (client c) CacheKeyPrefix
        in \<lparr>Hits = hits, Misses = misses, HitRate = hitRate, TotalKeys = int (length keys)\<rparr>)"

text \<open>The loop of the cache tests: \<open>Get\<close> called \<open>n\<close> times in a row; the last reply is kept.\<close>

fun Get_repeated :: "nat \<Rightarrow> Cache \<Rightarrow> int \<Rightarrow> int list \<Rightarrow> CachedResult option \<times> Cache" where
  "Get_repeated 0 c items packSizes = (None, c)"
| "Get_repeated (Suc n) c items packSizes =
     Get (snd (Get_repeated n c items packSizes)) items packSizes"

section \<open>The optimizer (internal/algorithm/optimizer.go)\<close>

record Result =
  PackCounts :: "int \<rightharpoonup> int"
  TotalItems :: int
  TotalPacks :: int
  Waste :: int

text \<open>\<open>Result{PackCounts: make(map[int]int)}\<close>: every other field is zero.\<close>

definition empty_result :: Result where
  "empty_result = \<lparr>PackCounts = Map.empty, TotalItems = 0, TotalPacks = 0, Waste = 0\<rparr>"

type_synonym tables = "int list \<times> int list"

text \<open>
  The body of the inner loop for one \<open>size\<close> at row \<open>i\<close>; the pair is \<open>(dp, parent)\<close>.
  \<open>dp[i-size]\<close> is read only when \<open>size <= i\<close> holds (Go's \<open>&&\<close>).
\<close>

definition relax :: "int \<Rightarrow> tables \<Rightarrow> int \<Rightarrow> panic + tables" where
  "relax i tabs sz =
     (case tabs of (dp, parent) \<Rightarrow>
        if sz \<le> i then
          (case index dp (sub64 i sz) of
             Inl e \<Rightarrow> Inl e
           | Inr d \<Rightarrow>
               if d \<noteq> MaxInt32 then
                 (case index dp i of
                    Inl e \<Rightarrow> Inl e
                  | Inr cur \<Rightarrow>
                      if add64 d 1 < cur then
                        (case store dp i (add64 d 1) of
                           Inl e \<Rightarrow> Inl e
                         | Inr dp' \<Rightarrow>
                             (case store parent i sz of
                                Inl e \<Rightarrow> Inl e
                              | Inr parent' \<Rightarrow> Inr (dp', parent')))
                      else Inr (dp, parent))
               else Inr (dp, parent))
        else Inr (dp, parent))"

text \<open>\<open>for _, size := range sizes\<close> at row \<open>i\<close>.\<close>

fun fill_row :: "int \<Rightarrow> int list \<Rightarrow> tables \<Rightarrow> panic + tables" where
  "fill_row i [] tabs = Inr tabs"
| "fill_row i (sz # rest) tabs =
     (case relax i tabs sz of
        Inl e \<Rightarrow> Inl e
      | Inr tabs' \<Rightarrow> fill_row i rest tabs')"

text \<open>
  \<open>for i := 1; i <= limit; i++\<close>. The loop is entered only after
  \<open>make([]int, limit+1)\<close> has returned, so \<open>limit\<close> is below the largest \<open>int\<close> and
  \<open>i++\<close> cannot wrap.
\<close>

function fill_table :: "int \<Rightarrow> int \<Rightarrow> int list \<Rightarrow> tables \<Rightarrow> panic + tables" where
  "fill_table i limit sizes tabs =
     (if i \<le> limit then
        (case fill_row i sizes tabs of
           Inl e \<Rightarrow> Inl e
         | Inr tabs' \<Rightarrow> fill_table (i + 1) limit sizes tabs')
      else Inr tabs)"
  by pat_completeness auto
termination
  by (relation "measure (\<lambda>(i, limit, sizes, tabs). nat (limit + 1 - i))") auto

declare fill_table.simps [simp del]

text \<open>
  \<open>for items := order; items <= limit; items++\<close> with its four branches; the
  pair is \<open>(bestItems, bestPacks)\<close>. The fourth branch is the \<open>break\<close>.
\<close>

function find_best :: "int \<Rightarrow> int \<Rightarrow> int list \<Rightarrow> int \<times> int \<Rightarrow> panic + int \<times> int" where
  "find_best items limit dp best =
     (case best of (bestItems, bestPacks) \<Rightarrow>
        if items \<le> limit then
          (case index dp items of
             Inl e \<Rightarrow> Inl e
           | Inr d \<Rightarrow>
               if d \<noteq> MaxInt32 then
                 (if bestItems = - 1 then find_best (items + 1) limit dp (items, d)
                  else if items < bestItems then find_best (items + 1) limit dp (items, d)
                  else if items = bestItems \<and> d < bestPacks then
                    find_best (items + 1) limit dp (bestItems, d)
                  else if items > bestItems then Inr (bestItems, bestPacks)
                  else find_best (items + 1) limit dp (bestItems, bestPacks))
               else find_best (items + 1) limit dp (bestItems, bestPacks))
        else Inr (bestItems, bestPacks))"
  by pat_completeness auto
termination
  by (relation "measure (\<lambda>(items, limit, dp, best). nat (limit + 1 - items))") auto

declare find_best.simps [simp del]

text \<open>\<open>packCounts[size]++\<close>: a missing key reads as 0.\<close>

definition incr :: "(int \<rightharpoonup> int) \<Rightarrow> int \<Rightarrow> (int \<rightharpoonup> int)" where
  "incr packCounts sz =
     packCounts(sz \<mapsto> add64 (case packCounts sz of None \<Rightarrow> 0 | Some c \<Rightarrow> c) 1)"

text \<open>
  \<open>for current > 0 { size := parent[current]; packCounts[size]++; current -= size }\<close>.
  Nothing in the loop itself forces \<open>current\<close> to decrease, so the walk is a partial
  function: \<open>None\<close> is the loop that never ends.
\<close>

partial_function (option) backtrack ::
  "int list \<Rightarrow> int \<Rightarrow> (int \<rightharpoonup> int) \<Rightarrow> (panic + (int \<rightharpoonup> int)) option" where
  "backtrack parent current packCounts =
     (if current > 0 then
        (case index parent current of
           Inl e \<Rightarrow> Some (Inl e)
         | Inr sz \<Rightarrow> backtrack parent (sub64 current sz) (incr packCounts sz))
      else Some (Inr packCounts))"

declare backtrack.simps [code]

text \<open>
  \<open>Calculate\<close>. \<open>None\<close>: the call does not return; \<open>Some (Inl p)\<close>: it panics with
  \<open>p\<close>; \<open>Some (Inr r)\<close>: it returns \<open>r\<close>.
\<close>

definition Calculate :: "int \<Rightarrow> int list \<Rightarrow> (panic + Result) option" where
  "Calculate order packSizes =
     (if order \<le> 0 then Some (Inr empty_result)
      else if length packSizes = 0 then Some (Inr empty_result)
      else
        let sizes = sort packSizes;
            maxSize = last sizes;
            limit = add64 order maxSize
        in
          (case make_slice (add64 limit 1) of
             Inl e \<Rightarrow> Some (Inl e)
           | Inr dp0 \<Rightarrow>
          (case store (map (\<lambda>_. MaxInt32) dp0) 0 0 of
             Inl e \<Rightarrow> Some (Inl e)
           | Inr dp1 \<Rightarrow>
          (case make_slice (add64 limit 1) of
             Inl e \<Rightarrow> Some (Inl e)
           | Inr parent0 \<Rightarrow>
          (case fill_table 1 limit sizes (dp1, parent0) of
             Inl e \<Rightarrow> Some (Inl e)
           | Inr (dp, parent) \<Rightarrow>
          (case find_best order limit dp (- 1, MaxInt32) of
             Inl e \<Rightarrow> Some (Inl e)
           | Inr (bestItems, bestPacks) \<Rightarrow>
               if bestItems = - 1 then Some (Inr empty_result)
               else
                 (case backtrack parent bestItems Map.empty of
                    None \<Rightarrow> None
                  | Some (Inl e) \<Rightarrow> Some (Inl e)
                  | Some (Inr packCounts) \<Rightarrow>
                      Some (Inr \<lparr>PackCounts = packCounts, TotalItems = bestItems,
                                 TotalPacks = bestPacks,
                                 Waste = sub64 bestItems order\<rparr>))))))))"

text \<open>\<open>Validate\<close>: the loop returns false at the first size that is not positive.\<close>

fun all_positive :: "int list \<Rightarrow> bool" where
  "all_positive [] = True"
| "all_positive (sz # rest) = (if sz \<le> 0 then False else all_positive rest)"

definition Validate :: "int list \<Rightarrow> bool" where
  "Validate packSizes = (if length packSizes = 0 then False else all_positive packSizes)"

section \<open>Invariants of the tables\<close>

text \<open>
  \<open>tab_inv S i\<close>: rows up to \<open>i\<close> are filled. Every entry of \<open>dp\<close> lies between 0 and
  \<open>MaxInt32\<close>, rows above \<open>i\<close> still hold \<open>MaxInt32\<close>, and a row that has left
  \<open>MaxInt32\<close> records in \<open>parent\<close> a positive size of \<open>S\<close> that leads to a row with one
  pack less. \<open>opt_inv S i\<close>: no size of \<open>S\<close> improves a row up to \<open>i\<close>.
\<close>

definition tab_inv :: "int set \<Rightarrow> int \<Rightarrow> tables \<Rightarrow> bool" where
  "tab_inv S i tabs \<longleftrightarrow>
     (case tabs of (dp, parent) \<Rightarrow>
        length parent = length dp \<and> 0 < length dp \<and> dp ! 0 = 0 \<and>
        (\<forall>j. 0 \<le> j \<and> j < int (length dp) \<longrightarrow> 0 \<le> dp ! nat j \<and> dp ! nat j \<le> MaxInt32) \<and>
        (\<forall>j. i < j \<and> j < int (length dp) \<longrightarrow> dp ! nat j = MaxInt32) \<and>
        (\<forall>j. 0 < j \<and> j \<le> i \<and> j < int (length dp) \<and> dp ! nat j \<noteq> MaxInt32 \<longrightarrow>
             parent ! nat j \<in> S \<and> 0 < parent ! nat j \<and> parent ! nat j \<le> j \<and>
             dp ! nat (j - parent ! nat j) \<noteq> MaxInt32 \<and>
             dp ! nat j = dp ! nat (j - parent ! nat j) + 1))"

definition opt_inv :: "int set \<Rightarrow> int \<Rightarrow> int list \<Rightarrow> bool" where
  "opt_inv S i dp \<longleftrightarrow>
     (\<forall>j sz. 0 < j \<and> j \<le> i \<and> sz \<in> S \<and> 0 < sz \<and> sz \<le> j \<and> dp ! nat (j - sz) \<noteq> MaxInt32 \<longrightarrow>
        dp ! nat j \<le> dp ! nat (j - sz) + 1)"

definition total_items :: "(int \<rightharpoonup> int) \<Rightarrow> int" where
  "total_items packCounts = (\<Sum>sz \<in> dom packCounts. sz * the (packCounts sz))"

definition total_packs :: "(int \<rightharpoonup> int) \<Rightarrow> int" where
  "total_packs packCounts = (\<Sum>sz \<in> dom packCounts. the (packCounts sz))"

text \<open>
  \<open>holds c key e\<close>: the cache is switched on, its store answers and has the entry \<open>e\<close>
  under \<open>key\<close>. \<open>bump_entry\<close>: what a hit does to an entry.
\<close>

definition holds :: "Cache \<Rightarrow> string \<Rightarrow> CachedResult \<Rightarrow> bool" where
  "holds c key e \<longleftrightarrow>
     enabled c \<and> reachable (client c) \<and> redis_get (client c) key = RedisOk (Entry e)"

definition bump_entry :: "CachedResult \<Rightarrow> CachedResult" where
  "bump_entry e =
     e\<lparr>HitCount := add64 (HitCount e) 1,
       CurrentTTL := (if mul64 (CurrentTTL e) 2 > MaxTTL then MaxTTL else mul64 (CurrentTTL e) 2)\<rparr>"

section \<open>Machine arithmetic and one relaxation step\<close>

lemma wrap64_id: "is_int64 x \<Longrightarrow> wrap64 x = x"
  by (simp add: is_int64_def wrap64_def)

lemma sub64_nonneg:
  assumes "is_int64 a" "is_int64 b" "b \<le> a" "0 \<le> sub64 a b"
  shows "sub64 a b = a - b"
proof -
  have r: "0 \<le> a - b" "a - b < 18446744073709551616"
    using assms by (auto simp: is_int64_def)
  show ?thesis
  proof (cases "a - b \<le> 9223372036854775807")
    case True
    then show ?thesis using r by (simp add: sub64_def wrap64_id is_int64_def)
  next
    case False
    then have "(a - b + 9223372036854775808) mod 18446744073709551616 = a - b - 9223372036854775808"
      using r by (simp add: mod_pos_pos_trivial flip: minus_mod_self2 [of "a - b + 9223372036854775808"])
    then have "sub64 a b < 0" using r False by (simp add: sub64_def wrap64_def)
    with assms show ?thesis by simp
  qed
qed

lemma add64_small: "0 \<le> d \<Longrightarrow> d \<le> MaxInt32 \<Longrightarrow> add64 d 1 = d + 1"
  by (simp add: add64_def wrap64_id is_int64_def MaxInt32_def)

lemma relax_cases:
  assumes inv: "tab_inv S i (dp, parent)"
    and i: "1 \<le> i" "i < int (length dp)" "is_int64 i"
    and sz: "is_int64 sz"
    and run: "relax i (dp, parent) sz = Inr (dp', parent')"
  shows "(dp' = dp \<and> parent' = parent \<and>
            \<not> (0 < sz \<and> sz \<le> i \<and> dp ! nat (i - sz) \<noteq> MaxInt32 \<and> dp ! nat (i - sz) + 1 < dp ! nat i))
         \<or> (0 < sz \<and> sz \<le> i \<and> dp ! nat (i - sz) \<noteq> MaxInt32 \<and> dp ! nat (i - sz) + 1 < dp ! nat i \<and>
            dp' = dp[nat i := dp ! nat (i - sz) + 1] \<and> parent' = parent[nat i := sz])"
proof (cases "sz \<le> i")
  case False
  with run show ?thesis by (simp add: relax_def)
next
  case le: True
  let ?k = "sub64 i sz"
  from run le obtain d where d: "index dp ?k = Inr d"
    by (auto simp: relax_def split: sum.splits)
  then have k: "0 \<le> ?k" "?k < int (length dp)" and dk: "d = dp ! nat ?k"
    by (auto simp: index_def split: if_splits)
  have keq: "?k = i - sz" using sub64_nonneg [OF i(3) sz le k(1)] .
  have rng: "0 \<le> d" "d \<le> MaxInt32" using inv k dk by (auto simp: tab_inv_def)
  have ci: "index dp i = Inr (dp ! nat i)" using i by (simp add: index_def)
  have len: "length parent = length dp" using inv by (simp add: tab_inv_def)
  have a1: "add64 d 1 = d + 1" using rng by (rule add64_small)
  have si: "store dp i v = Inr (dp[nat i := v])" "store parent i v = Inr (parent[nat i := v])" for v
    using i len by (simp_all add: store_def)
  have run': "(if d \<noteq> MaxInt32 \<and> d + 1 < dp ! nat i
               then Inr (dp[nat i := d + 1], parent[nat i := sz]) else Inr (dp, parent))
              = (Inr (dp', parent') :: panic + tables)"
    using run le by (auto simp: relax_def d ci a1 si split: if_splits)
  show ?thesis
  proof (cases "d \<noteq> MaxInt32 \<and> d + 1 < dp ! nat i")
    case False
    then show ?thesis using run' dk keq by auto
  next
    case True
    have "\<not> i < ?k" using inv True k dk by (auto simp: tab_inv_def)
    moreover have "?k \<noteq> i" using True dk by auto
    ultimately have "0 < sz" using keq by simp
    then show ?thesis using run' le dk keq True by auto
  qed
qed


lemma sub64_small: "0 < sz \<Longrightarrow> sz \<le> i \<Longrightarrow> is_int64 i \<Longrightarrow> sub64 i sz = i - sz"
  by (simp add: sub64_def wrap64_id is_int64_def)

lemma relax_total:
  assumes inv: "tab_inv S i (dp, parent)"
    and i: "1 \<le> i" "i < int (length dp)" "is_int64 i"
    and sz: "0 < sz"
  shows "\<exists>t. relax i (dp, parent) sz = Inr t"
proof (cases "sz \<le> i")
  case False
  then show ?thesis by (simp add: relax_def)
next
  case True
  have k: "sub64 i sz = i - sz" using sz True i(3) by (rule sub64_small)
  have len: "length parent = length dp" using inv by (simp add: tab_inv_def)
  show ?thesis using True sz i len
    by (simp add: relax_def k index_def store_def)
qed

lemma relax_inv:
  assumes inv: "tab_inv S i (dp, parent)"
    and i: "1 \<le> i" "i < int (length dp)" "is_int64 i"
    and sz: "is_int64 sz" "sz \<in> S"
    and run: "relax i (dp, parent) sz = Inr (dp', parent')"
  shows "tab_inv S i (dp', parent')"
proof -
  from relax_cases [OF inv i sz(1) run]
  consider "dp' = dp" "parent' = parent"
    | "0 < sz" "sz \<le> i" "dp ! nat (i - sz) \<noteq> MaxInt32" "dp ! nat (i - sz) + 1 < dp ! nat i"
      "dp' = dp[nat i := dp ! nat (i - sz) + 1]" "parent' = parent[nat i := sz]"
    by blast
  then show ?thesis
  proof cases
    case 1
    with inv show ?thesis by simp
  next
    case 2
    let ?d = "dp ! nat (i - sz)"
    have len: "length parent = length dp" "0 < length dp" "dp ! 0 = 0"
      using inv by (simp_all add: tab_inv_def)
    have rng: "0 \<le> dp ! nat j \<and> dp ! nat j \<le> MaxInt32" if "0 \<le> j" "j < int (length dp)" for j
      using inv that by (simp add: tab_inv_def)
    have above: "dp ! nat j = MaxInt32" if "i < j" "j < int (length dp)" for j
      using inv that by (simp add: tab_inv_def)
    have par: "parent ! nat j \<in> S \<and> 0 < parent ! nat j \<and> parent ! nat j \<le> j \<and>
               dp ! nat (j - parent ! nat j) \<noteq> MaxInt32 \<and>
               dp ! nat j = dp ! nat (j - parent ! nat j) + 1"
      if "0 < j" "j \<le> i" "j < int (length dp)" "dp ! nat j \<noteq> MaxInt32" for j
      using inv that by (simp add: tab_inv_def)
    have d: "0 \<le> ?d" "?d \<le> MaxInt32" using rng [of "i - sz"] i 2 by auto
    have di: "dp ! nat i \<le> MaxInt32" using rng [of i] i by auto
    have upd: "dp' ! nat j = (if j = i then ?d + 1 else dp ! nat j)"
      if "0 \<le> j" "j < int (length dp)" for j
      using that i 2(5) by (auto simp: nth_list_update)
    have updp: "parent' ! nat j = (if j = i then sz else parent ! nat j)"
      if "0 \<le> j" "j < int (length dp)" for j
      using that i 2(6) len by (auto simp: nth_list_update)
    have l': "length dp' = length dp" "length parent' = length dp"
      using 2 len by simp_all
    have z: "dp' ! 0 = 0" using upd [of 0] len i by simp
    have r': "0 \<le> dp' ! nat j \<and> dp' ! nat j \<le> MaxInt32" if "0 \<le> j" "j < int (length dp)" for j
      using upd [OF that] rng [OF that] d di 2(4) by auto
    have a': "dp' ! nat j = MaxInt32" if "i < j" "j < int (length dp)" for j
      using upd [of j] above [OF that] that i by auto
    have p': "parent' ! nat j \<in> S \<and> 0 < parent' ! nat j \<and> parent' ! nat j \<le> j \<and>
               dp' ! nat (j - parent' ! nat j) \<noteq> MaxInt32 \<and>
               dp' ! nat j = dp' ! nat (j - parent' ! nat j) + 1"
      if j: "0 < j" "j \<le> i" "j < int (length dp)" "dp' ! nat j \<noteq> MaxInt32" for j
    proof (cases "j = i")
      case True
      have "dp' ! nat (i - sz) = ?d" using upd [of "i - sz"] 2 i by simp
      then show ?thesis using True upd [of i] updp [of i] i 2 sz by simp
    next
      case False
      have o: "dp ! nat j \<noteq> MaxInt32" using upd [of j] j False by simp
      note P = par [OF j(1-3) o]
      have "dp' ! nat (j - parent ! nat j) = dp ! nat (j - parent ! nat j)"
        using upd [of "j - parent ! nat j"] P j False by simp
      then show ?thesis using P upd [of j] updp [of j] j False by simp
    qed
    show ?thesis
      unfolding tab_inv_def using l' z r' a' p' len by auto
  qed
qed


lemma relax_effect:
  assumes inv: "tab_inv S i (dp, parent)"
    and i: "1 \<le> i" "i < int (length dp)" "is_int64 i"
    and sz: "is_int64 sz"
    and run: "relax i (dp, parent) sz = Inr (dp', parent')"
  shows "length dp' = length dp"
    and "0 \<le> j \<Longrightarrow> j \<noteq> i \<Longrightarrow> dp' ! nat j = dp ! nat j"
    and "dp' ! nat i \<le> dp ! nat i"
    and "0 < sz \<Longrightarrow> sz \<le> i \<Longrightarrow> dp ! nat (i - sz) \<noteq> MaxInt32 \<Longrightarrow>
           dp' ! nat i \<le> dp ! nat (i - sz) + 1"
  using relax_cases [OF inv i sz run] i
  by (auto simp: nth_list_update)

lemma fill_row_inv:
  assumes "tab_inv S i (dp, parent)"
    and "1 \<le> i" "i < int (length dp)" "is_int64 i"
    and "\<forall>sz \<in> set sizes. is_int64 sz \<and> sz \<in> S"
    and "fill_row i sizes (dp, parent) = Inr (dp', parent')"
  shows "tab_inv S i (dp', parent') \<and> length dp' = length dp"
  using assms
proof (induction sizes arbitrary: dp parent)
  case Nil
  then show ?case by simp
next
  case (Cons sz rest)
  from Cons.prems(6) obtain dp1 parent1
    where r: "relax i (dp, parent) sz = Inr (dp1, parent1)"
      and f: "fill_row i rest (dp1, parent1) = Inr (dp', parent')"
    by (auto split: sum.splits)
  have sz: "is_int64 sz" "sz \<in> S" using Cons.prems(5) by simp_all
  have inv1: "tab_inv S i (dp1, parent1)"
    using relax_inv [OF Cons.prems(1-4) sz r] .
  have len1: "length dp1 = length dp"
    using relax_effect(1) [OF Cons.prems(1-4) sz(1) r] .
  have "tab_inv S i (dp', parent') \<and> length dp' = length dp1"
    using Cons.IH [OF inv1 Cons.prems(2) _ Cons.prems(4) _ f] Cons.prems(3,5) len1 by simp
  then show ?case using len1 by simp
qed

lemma fill_row_total:
  assumes "tab_inv S i (dp, parent)"
    and "1 \<le> i" "i < int (length dp)" "is_int64 i"
    and "\<forall>sz \<in> set sizes. 0 < sz \<and> is_int64 sz \<and> sz \<in> S"
  shows "\<exists>t. fill_row i sizes (dp, parent) = Inr t"
  using assms
proof (induction sizes arbitrary: dp parent)
  case Nil
  then show ?case by simp
next
  case (Cons sz rest)
  have sz: "0 < sz" "is_int64 sz" "sz \<in> S" using Cons.prems(5) by simp_all
  from relax_total [OF Cons.prems(1-4) sz(1)] obtain dp1 parent1
    where r: "relax i (dp, parent) sz = Inr (dp1, parent1)" by fastforce
  have inv1: "tab_inv S i (dp1, parent1)"
    using relax_inv [OF Cons.prems(1-4) sz(2,3) r] .
  have len1: "length dp1 = length dp"
    using relax_effect(1) [OF Cons.prems(1-4) sz(2) r] .
  have "\<exists>t. fill_row i rest (dp1, parent1) = Inr t"
    using Cons.IH [OF inv1 Cons.prems(2) _ Cons.prems(4)] Cons.prems(3,5) len1 by simp
  then show ?case using r by simp
qed

lemma fill_row_effect:
  assumes "tab_inv S i (dp, parent)"
    and "1 \<le> i" "i < int (length dp)" "is_int64 i"
    and "\<forall>sz \<in> set sizes. is_int64 sz \<and> sz \<in> S"
    and "fill_row i sizes (dp, parent) = Inr (dp', parent')"
  shows "(\<forall>j. 0 \<le> j \<and> j \<noteq> i \<longrightarrow> dp' ! nat j = dp ! nat j) \<and>
         dp' ! nat i \<le> dp ! nat i \<and>
         (\<forall>sz \<in> set sizes. 0 < sz \<and> sz \<le> i \<and> dp ! nat (i - sz) \<noteq> MaxInt32 \<longrightarrow>
            dp' ! nat i \<le> dp ! nat (i - sz) + 1)"
  using assms
proof (induction sizes arbitrary: dp parent)
  case Nil
  then show ?case by simp
next
  case (Cons sz rest)
  from Cons.prems(6) obtain dp1 parent1
    where r: "relax i (dp, parent) sz = Inr (dp1, parent1)"
      and f: "fill_row i rest (dp1, parent1) = Inr (dp', parent')"
    by (auto split: sum.splits)
  have sz: "is_int64 sz" "sz \<in> S" using Cons.prems(5) by simp_all
  have inv1: "tab_inv S i (dp1, parent1)"
    using relax_inv [OF Cons.prems(1-4) sz r] .
  note E = relax_effect [OF Cons.prems(1-4) sz(1) r]
  have IH: "(\<forall>j. 0 \<le> j \<and> j \<noteq> i \<longrightarrow> dp' ! nat j = dp1 ! nat j) \<and>
         dp' ! nat i \<le> dp1 ! nat i \<and>
         (\<forall>sz \<in> set rest. 0 < sz \<and> sz \<le> i \<and> dp1 ! nat (i - sz) \<noteq> MaxInt32 \<longrightarrow>
            dp' ! nat i \<le> dp1 ! nat (i - sz) + 1)"
    using Cons.IH [OF inv1 Cons.prems(2) _ Cons.prems(4) _ f] Cons.prems(3,5) E(1) by simp
  have same: "dp1 ! nat (i - s) = dp ! nat (i - s)" if "0 < s" "s \<le> i" for s
    using E(2) [of "i - s"] that by simp
  show ?case
  proof (intro conjI allI ballI impI)
    fix j assume "0 \<le> j \<and> j \<noteq> i"
    then show "dp' ! nat j = dp ! nat j" using IH E(2) [of j] by simp
  next
    show "dp' ! nat i \<le> dp ! nat i" using IH E(3) by linarith
  next
    fix s assume s: "s \<in> set (sz # rest)"
      and c: "0 < s \<and> s \<le> i \<and> dp ! nat (i - s) \<noteq> MaxInt32"
    show "dp' ! nat i \<le> dp ! nat (i - s) + 1"
    proof (cases "s = sz")
      case True
      then show ?thesis using E(4) c IH by force
    next
      case False
      then have "s \<in> set rest" using s by simp
      then show ?thesis using IH c same [of s] by force
    qed
  qed
qed

section \<open>The fill loop\<close>

lemma tab_inv_step:
  assumes "tab_inv S (i - 1) tabs"
  shows "tab_inv S i tabs"
proof -
  obtain dp parent where t: "tabs = (dp, parent)" by (cases tabs)
  have "dp ! nat j = MaxInt32" if "i - 1 < j" "j < int (length dp)" for j
    using assms that unfolding t tab_inv_def by simp
  then have "\<not> (0 < j \<and> j \<le> i \<and> j < int (length dp) \<and> dp ! nat j \<noteq> MaxInt32 \<and> \<not> j \<le> i - 1)" for j
    by auto
  then show ?thesis using assms unfolding t tab_inv_def
    by (simp; blast)
qed

lemma opt_inv_step:
  assumes o: "opt_inv S (i - 1) dp"
    and same: "\<forall>j. 0 \<le> j \<and> j \<noteq> i \<longrightarrow> dp' ! nat j = dp ! nat j"
    and row: "\<forall>sz \<in> set sizes. 0 < sz \<and> sz \<le> i \<and> dp ! nat (i - sz) \<noteq> MaxInt32 \<longrightarrow>
                dp' ! nat i \<le> dp ! nat (i - sz) + 1"
    and S: "S \<subseteq> set sizes"
  shows "opt_inv S i dp'"
  unfolding opt_inv_def
proof (intro allI impI)
  fix j sz
  assume a: "0 < j \<and> j \<le> i \<and> sz \<in> S \<and> 0 < sz \<and> sz \<le> j \<and> dp' ! nat (j - sz) \<noteq> MaxInt32"
  then have e: "dp' ! nat (j - sz) = dp ! nat (j - sz)" using same by simp
  show "dp' ! nat j \<le> dp' ! nat (j - sz) + 1"
  proof (cases "j = i")
    case True
    then show ?thesis using a e row S by auto
  next
    case False
    then have "dp' ! nat j = dp ! nat j" using same a by simp
    moreover have "dp ! nat j \<le> dp ! nat (j - sz) + 1"
      using o a e False unfolding opt_inv_def by simp
    ultimately show ?thesis using e by simp
  qed
qed

lemma fill_table_inv:
  assumes "fill_table i limit sizes tabs = Inr tabs'"
    and "tab_inv S (i - 1) tabs" "1 \<le> i" "i \<le> limit + 1"
    and "int (length (fst tabs)) = limit + 1" "is_int64 limit"
    and "\<forall>sz \<in> set sizes. is_int64 sz \<and> sz \<in> S"
  shows "tab_inv S limit tabs' \<and> length (fst tabs') = length (fst tabs)"
  using assms
proof (induction i limit sizes tabs rule: fill_table.induct)
  case (1 i limit sizes tabs)
  show ?case
  proof (cases "i \<le> limit")
    case False
    then have "i - 1 = limit" "tabs' = tabs"
      using "1.prems"(1,4) by (simp_all add: fill_table.simps [of i])
    then show ?thesis using "1.prems"(2) by simp
  next
    case True
    obtain dp parent where t: "tabs = (dp, parent)" by (cases tabs)
    from "1.prems"(1) True obtain tabs1
      where r: "fill_row i sizes tabs = Inr tabs1"
        and f: "fill_table (i + 1) limit sizes tabs1 = Inr tabs'"
      by (auto simp: fill_table.simps [of i] split: sum.splits)
    obtain dp1 parent1 where t1: "tabs1 = (dp1, parent1)" by (cases tabs1)
    have ii: "is_int64 i" using True "1.prems"(3,6) by (simp add: is_int64_def)
    have il: "i < int (length dp)" using True "1.prems"(5) t by simp
    have inv: "tab_inv S i (dp, parent)"
      using tab_inv_step [OF "1.prems"(2)] t by simp
    have R: "tab_inv S i (dp1, parent1) \<and> length dp1 = length dp"
      using fill_row_inv [OF inv "1.prems"(3) il ii "1.prems"(7)] r t t1 by simp
    have "tab_inv S limit tabs' \<and> length (fst tabs') = length (fst tabs1)"
      using "1.IH" [OF True r f] R t1 t "1.prems"(3,5,6,7) True by simp
    then show ?thesis using R t t1 by simp
  qed
qed

lemma fill_table_opt:
  assumes "fill_table i limit sizes tabs = Inr tabs'"
    and "tab_inv S (i - 1) tabs" "1 \<le> i" "i \<le> limit + 1"
    and "int (length (fst tabs)) = limit + 1" "is_int64 limit"
    and "\<forall>sz \<in> set sizes. is_int64 sz \<and> sz \<in> S"
    and "S \<subseteq> set sizes" "opt_inv S (i - 1) (fst tabs)"
  shows "opt_inv S limit (fst tabs')"
  using assms
proof (induction i limit sizes tabs rule: fill_table.induct)
  case (1 i limit sizes tabs)
  show ?case
  proof (cases "i \<le> limit")
    case False
    then have "i - 1 = limit" "tabs' = tabs"
      using "1.prems"(1,4) by (simp_all add: fill_table.simps [of i])
    then show ?thesis using "1.prems"(9) by simp
  next
    case True
    obtain dp parent where t: "tabs = (dp, parent)" by (cases tabs)
    from "1.prems"(1) True obtain tabs1
      where r: "fill_row i sizes tabs = Inr tabs1"
        and f: "fill_table (i + 1) limit sizes tabs1 = Inr tabs'"
      by (auto simp: fill_table.simps [of i] split: sum.splits)
    obtain dp1 parent1 where t1: "tabs1 = (dp1, parent1)" by (cases tabs1)
    have ii: "is_int64 i" using True "1.prems"(3,6) by (simp add: is_int64_def)
    have il: "i < int (length dp)" using True "1.prems"(5) t by simp
    have inv: "tab_inv S i (dp, parent)"
      using tab_inv_step [OF "1.prems"(2)] t by simp
    have r': "fill_row i sizes (dp, parent) = Inr (dp1, parent1)" using r t t1 by simp
    have R: "tab_inv S i (dp1, parent1) \<and> length dp1 = length dp"
      using fill_row_inv [OF inv "1.prems"(3) il ii "1.prems"(7) r'] .
    note E = fill_row_effect [OF inv "1.prems"(3) il ii "1.prems"(7) r']
    have o1: "opt_inv S i dp1"
      using opt_inv_step [of S i dp dp1 sizes] "1.prems"(8,9) E t by simp
    show ?thesis
      using "1.IH" [OF True r f] R o1 t1 t "1.prems"(3,5,6,7,8) True by simp
  qed
qed

lemma fill_table_total:
  assumes "tab_inv S (i - 1) tabs" "1 \<le> i" "i \<le> limit + 1"
    and "int (length (fst tabs)) = limit + 1" "is_int64 limit"
    and "\<forall>sz \<in> set sizes. 0 < sz \<and> is_int64 sz \<and> sz \<in> S"
  shows "\<exists>t. fill_table i limit sizes tabs = Inr t"
  using assms
proof (induction i limit sizes tabs rule: fill_table.induct)
  case (1 i limit sizes tabs)
  show ?case
  proof (cases "i \<le> limit")
    case False
    then show ?thesis by (simp add: fill_table.simps [of i])
  next
    case True
    obtain dp parent where t: "tabs = (dp, parent)" by (cases tabs)
    have ii: "is_int64 i" using True "1.prems"(2,5) by (simp add: is_int64_def)
    have il: "i < int (length dp)" using True "1.prems"(4) t by simp
    have inv: "tab_inv S i (dp, parent)"
      using tab_inv_step [OF "1.prems"(1)] t by simp
    from fill_row_total [OF inv "1.prems"(2) il ii "1.prems"(6)]
    obtain dp1 parent1 where r': "fill_row i sizes (dp, parent) = Inr (dp1, parent1)"
      by fastforce
    have w: "\<forall>sz \<in> set sizes. is_int64 sz \<and> sz \<in> S" using "1.prems"(6) by simp
    have R: "tab_inv S i (dp1, parent1) \<and> length dp1 = length dp"
      using fill_row_inv [OF inv "1.prems"(2) il ii w r'] .
    have "\<exists>t. fill_table (i + 1) limit sizes (dp1, parent1) = Inr t"
      using "1.IH" [OF True, of "(dp1, parent1)"] r' t R "1.prems"(2,4,5,6) True by simp
    then show ?thesis using True r' t by (simp add: fill_table.simps [of i])
  qed
qed

section \<open>The scan for the best total\<close>

lemma init_tab_inv:
  assumes "0 \<le> limit"
  shows "tab_inv S 0 ((replicate (nat (limit + 1)) MaxInt32)[0 := 0], replicate (nat (limit + 1)) 0)"
  using assms by (auto simp: tab_inv_def nth_list_update MaxInt32_def)

lemma init_opt_inv: "opt_inv S 0 dp"
  by (simp add: opt_inv_def)

lemma find_best_done:
  assumes "bestItems \<noteq> - 1" "bestItems < items"
    and "\<forall>j. items \<le> j \<and> j \<le> limit \<longrightarrow> 0 \<le> j \<and> j < int (length dp)"
  shows "find_best items limit dp (bestItems, bestPacks) = Inr (bestItems, bestPacks)"
  using assms
proof (induction "nat (limit + 1 - items)" arbitrary: items)
  case 0
  then show ?case by (simp add: find_best.simps [of items])
next
  case (Suc n)
  then have le: "items \<le> limit" by simp
  have ix: "index dp items = Inr (dp ! nat items)" using Suc.prems(3) le by (simp add: index_def)
  have IH: "find_best (items + 1) limit dp (bestItems, bestPacks) = Inr (bestItems, bestPacks)"
    using Suc.hyps(1) [of "items + 1"] Suc.hyps(2) Suc.prems by simp
  show ?case using le ix IH Suc.prems(1,2)
    by (simp add: find_best.simps [of items])
qed

lemma find_best_scan:
  assumes "0 \<le> items"
    and "\<forall>j. items \<le> j \<and> j \<le> limit \<longrightarrow> j < int (length dp)"
  shows "\<exists>b bp. find_best items limit dp (- 1, MaxInt32) = Inr (b, bp) \<and>
           ((b = - 1 \<and> (\<forall>j. items \<le> j \<and> j \<le> limit \<longrightarrow> dp ! nat j = MaxInt32)) \<or>
            (items \<le> b \<and> b \<le> limit \<and> dp ! nat b \<noteq> MaxInt32 \<and> bp = dp ! nat b \<and>
             (\<forall>j. items \<le> j \<and> j < b \<longrightarrow> dp ! nat j = MaxInt32)))"
  using assms
proof (induction "nat (limit + 1 - items)" arbitrary: items)
  case 0
  then show ?case by (simp add: find_best.simps [of items])
next
  case (Suc n)
  then have le: "items \<le> limit" by simp
  have ix: "index dp items = Inr (dp ! nat items)" using Suc.prems le by (simp add: index_def)
  show ?case
  proof (cases "dp ! nat items = MaxInt32")
    case True
    from Suc.hyps(1) [of "items + 1"] Suc.hyps(2) Suc.prems
    obtain b bp where r: "find_best (items + 1) limit dp (- 1, MaxInt32) = Inr (b, bp)"
      and c: "(b = - 1 \<and> (\<forall>j. items + 1 \<le> j \<and> j \<le> limit \<longrightarrow> dp ! nat j = MaxInt32)) \<or>
            (items + 1 \<le> b \<and> b \<le> limit \<and> dp ! nat b \<noteq> MaxInt32 \<and> bp = dp ! nat b \<and>
             (\<forall>j. items + 1 \<le> j \<and> j < b \<longrightarrow> dp ! nat j = MaxInt32))"
      by force
    have e: "find_best items limit dp (- 1, MaxInt32) = Inr (b, bp)"
      using le ix True r by (simp add: find_best.simps [of items])
    have all: "dp ! nat j = MaxInt32" if "items \<le> j" "j < items + 1" for j
      using that True by (cases "j = items") auto
    from c show ?thesis
    proof
      assume "b = - 1 \<and> (\<forall>j. items + 1 \<le> j \<and> j \<le> limit \<longrightarrow> dp ! nat j = MaxInt32)"
      then have "b = - 1 \<and> (\<forall>j. items \<le> j \<and> j \<le> limit \<longrightarrow> dp ! nat j = MaxInt32)"
        using all by (metis not_le_imp_less)
      then show ?thesis using e by simp
    next
      assume a: "items + 1 \<le> b \<and> b \<le> limit \<and> dp ! nat b \<noteq> MaxInt32 \<and> bp = dp ! nat b \<and>
             (\<forall>j. items + 1 \<le> j \<and> j < b \<longrightarrow> dp ! nat j = MaxInt32)"
      then have "\<forall>j. items \<le> j \<and> j < b \<longrightarrow> dp ! nat j = MaxInt32"
        using all by (metis not_le_imp_less)
      then show ?thesis using e a by simp
    qed
  next
    case False
    have "find_best (items + 1) limit dp (items, dp ! nat items) = Inr (items, dp ! nat items)"
      using find_best_done [of items "items + 1" limit dp] Suc.prems by simp
    then have "find_best items limit dp (- 1, MaxInt32) = Inr (items, dp ! nat items)"
      using le ix False by (simp add: find_best.simps [of items])
    then show ?thesis using False le by simp
  qed
qed


section \<open>The walk back through the parent table\<close>

lemma sum_map_upd:
  fixes f :: "int \<Rightarrow> int option \<Rightarrow> int"
  assumes "finite (dom m)"
  shows "(\<Sum>x \<in> dom (m(s \<mapsto> v)). f x ((m(s \<mapsto> v)) x))
         = f s (Some v) + (\<Sum>x \<in> dom m - {s}. f x (m x))"
proof -
  let ?g = "\<lambda>x. f x ((m(s \<mapsto> v)) x)"
  have "sum ?g (dom (m(s \<mapsto> v))) = sum ?g (insert s (dom m))" by simp
  also have "\<dots> = ?g s + sum ?g (dom m - {s})"
    using assms by (rule sum.insert_remove)
  also have "sum ?g (dom m - {s}) = (\<Sum>x \<in> dom m - {s}. f x (m x))"
    by (rule sum.cong) auto
  finally have "sum ?g (dom (m(s \<mapsto> v))) = ?g s + (\<Sum>x \<in> dom m - {s}. f x (m x))" .
  then show ?thesis by (simp only: fun_upd_same)
qed

lemma sum_map_split:
  fixes f :: "int \<Rightarrow> int option \<Rightarrow> int"
  assumes "finite (dom m)"
  shows "(\<Sum>x \<in> dom m. f x (m x))
         = (case m s of None \<Rightarrow> 0 | Some c \<Rightarrow> f s (Some c)) + (\<Sum>x \<in> dom m - {s}. f x (m x))"
proof (cases "m s")
  case None
  then have "dom m - {s} = dom m" by auto
  then show ?thesis using None by simp
next
  case (Some c)
  then have "s \<in> dom m" by auto
  then show ?thesis using assms Some by (simp add: sum.remove [of "dom m" s])
qed

lemma total_items_upd:
  assumes "finite (dom pc)"
  shows "total_items (pc(s \<mapsto> (case pc s of None \<Rightarrow> 0 | Some c \<Rightarrow> c) + 1)) = total_items pc + s"
  unfolding total_items_def
  using sum_map_upd [OF assms, where f = "\<lambda>x v. x * the v" and s = s]
    sum_map_split [OF assms, where f = "\<lambda>x v. x * the v" and s = s]
  by (simp add: algebra_simps split: option.splits)

lemma total_packs_upd:
  assumes "finite (dom pc)"
  shows "total_packs (pc(s \<mapsto> (case pc s of None \<Rightarrow> 0 | Some c \<Rightarrow> c) + 1)) = total_packs pc + 1"
  unfolding total_packs_def
  using sum_map_upd [OF assms, where f = "\<lambda>x v. the v" and s = s]
    sum_map_split [OF assms, where f = "\<lambda>x v. the v" and s = s]
  by (simp add: algebra_simps split: option.splits)

lemma count_le_total_packs:
  assumes "finite (dom pc)" "\<forall>s \<in> dom pc. 0 < the (pc s)"
  shows "(case pc s of None \<Rightarrow> 0 | Some c \<Rightarrow> c) \<le> total_packs pc"
    and "0 \<le> (case pc s of None \<Rightarrow> 0 | Some c \<Rightarrow> c)"
proof -
  have nn: "0 \<le> (\<Sum>x \<in> dom pc - {s}. the (pc x))"
    using assms(2) by (intro sum_nonneg) (auto simp: less_imp_le)
  show "(case pc s of None \<Rightarrow> 0 | Some c \<Rightarrow> c) \<le> total_packs pc"
    unfolding total_packs_def
    using sum_map_split [OF assms(1), where f = "\<lambda>x v. the v" and s = s] nn
    by (simp split: option.splits)
  show "0 \<le> (case pc s of None \<Rightarrow> 0 | Some c \<Rightarrow> c)"
    using assms(2) by (auto split: option.splits simp: less_imp_le dom_def)
qed


lemma incr_eq:
  assumes "finite (dom pc)" "\<forall>s \<in> dom pc. 0 < the (pc s)" "total_packs pc \<le> MaxInt32"
  shows "incr pc p = pc(p \<mapsto> (case pc p of None \<Rightarrow> 0 | Some c \<Rightarrow> c) + 1)"
  using count_le_total_packs [OF assms(1,2), of p] assms(3)
  by (simp add: incr_def add64_small)

lemma backtrack_correct:
  assumes inv: "tab_inv S limit (dp, parent)"
    and len: "int (length dp) = limit + 1" and lim: "is_int64 limit"
    and c: "0 \<le> c" "c \<le> limit" "dp ! nat c \<noteq> MaxInt32"
    and pc: "finite (dom pc)" "\<forall>s \<in> dom pc. 0 < the (pc s)"
      "total_packs pc + dp ! nat c \<le> MaxInt32"
  shows "\<exists>pc'. backtrack parent c pc = Some (Inr pc') \<and> finite (dom pc') \<and>
           (\<forall>s \<in> dom pc'. 0 < the (pc' s)) \<and> dom pc' \<subseteq> dom pc \<union> S \<and>
           total_items pc' = total_items pc + c \<and>
           total_packs pc' = total_packs pc + dp ! nat c"
  using c pc
proof (induction "nat c" arbitrary: c pc rule: less_induct)
  case less
  have z: "dp ! 0 = 0" and lp: "length parent = length dp"
    using inv by (simp_all add: tab_inv_def)
  show ?case
  proof (cases "0 < c")
    case False
    then have "c = 0" using less.prems(1) by simp
    then show ?thesis using less.prems z
      by (simp add: backtrack.simps [of parent 0])
  next
    case True
    let ?p = "parent ! nat c"
    have P: "?p \<in> S" "0 < ?p" "?p \<le> c" "dp ! nat (c - ?p) \<noteq> MaxInt32"
      "dp ! nat c = dp ! nat (c - ?p) + 1"
      using inv True less.prems(2,3) len unfolding tab_inv_def by auto
    have ix: "index parent c = Inr ?p"
      using True less.prems(2) len lp by (simp add: index_def)
    have ci: "is_int64 c" using True less.prems(2) lim by (simp add: is_int64_def)
    have sb: "sub64 c ?p = c - ?p" using P(2,3) ci by (rule sub64_small)
    have rng: "0 \<le> dp ! nat j" if "0 \<le> j" "j \<le> limit" for j
      using inv that len unfolding tab_inv_def by simp
    have d0: "0 \<le> dp ! nat (c - ?p)"
      using rng [of "c - ?p"] P(2,3) less.prems(2) by simp
    have tp: "total_packs pc \<le> MaxInt32" using less.prems(6) P(5) d0 by simp
    let ?pc1 = "pc(?p \<mapsto> (case pc ?p of None \<Rightarrow> 0 | Some c \<Rightarrow> c) + 1)"
    have ie: "incr pc ?p = ?pc1" using less.prems(4,5) tp by (rule incr_eq)
    have k0: "0 \<le> (case pc ?p of None \<Rightarrow> 0 | Some c \<Rightarrow> c)"
      using count_le_total_packs(2) [OF less.prems(4,5)] .
    have f1: "finite (dom ?pc1)" using less.prems(4) by simp
    have pos1: "\<forall>s \<in> dom ?pc1. 0 < the (?pc1 s)"
      using less.prems(5) k0 by auto
    have ti: "total_items ?pc1 = total_items pc + ?p"
      using less.prems(4) by (rule total_items_upd)
    have tk: "total_packs ?pc1 = total_packs pc + 1"
      using less.prems(4) by (rule total_packs_upd)
    have b1: "total_packs ?pc1 + dp ! nat (c - ?p) \<le> MaxInt32"
      using tk P(5) less.prems(6) by simp
    have m: "nat (c - ?p) < nat c" using P(2,3) by simp
    from less.hyps [OF m _ _ P(4) f1 pos1 b1] P(2,3) less.prems(2)
    obtain pc' where R: "backtrack parent (c - ?p) ?pc1 = Some (Inr pc')" "finite (dom pc')"
      "\<forall>s \<in> dom pc'. 0 < the (pc' s)" "dom pc' \<subseteq> dom ?pc1 \<union> S"
      "total_items pc' = total_items ?pc1 + (c - ?p)"
      "total_packs pc' = total_packs ?pc1 + dp ! nat (c - ?p)"
      by auto
    have e: "backtrack parent c pc = Some (Inr pc')"
      using True ix sb ie R(1) by (simp add: backtrack.simps [of parent c])
    have "dom pc' \<subseteq> dom pc \<union> S" using R(4) P(1) by auto
    then show ?thesis using e R(2,3,5,6) ti tk P(5) by simp
  qed
qed

section \<open>Calculate as a whole\<close>

lemma is_int64_wrap64: "is_int64 (wrap64 x)"
proof -
  have "0 \<le> (x + 9223372036854775808) mod 18446744073709551616"
    "(x + 9223372036854775808) mod 18446744073709551616 < 18446744073709551616"
    by simp_all
  then show ?thesis unfolding is_int64_def wrap64_def by linarith
qed

lemma add64_one:
  assumes "is_int64 l" "1 \<le> add64 l 1"
  shows "add64 l 1 = l + 1" "l \<le> 9223372036854775806"
proof -
  have "l \<noteq> 9223372036854775807"
    using assms(2) by (auto simp: add64_def wrap64_def)
  then show "l \<le> 9223372036854775806" using assms(1) by (simp add: is_int64_def)
  then show "add64 l 1 = l + 1" using assms(1) by (simp add: add64_def wrap64_id is_int64_def)
qed

lemma sorted_le_last:
  fixes xs :: "int list"
  shows "sorted xs \<Longrightarrow> y \<in> set xs \<Longrightarrow> y \<le> last xs"
  by (induction xs) (auto simp: last_ConsR)

lemma last_sort_Max:
  fixes ps :: "int list"
  assumes "ps \<noteq> []"
  shows "last (sort ps) = Max (set ps)"
proof -
  have ne: "sort ps \<noteq> []" using assms by (metis length_sort length_0_conv)
  have "last (sort ps) \<in> set ps" using last_in_set [OF ne] by simp
  moreover have "y \<le> last (sort ps)" if "y \<in> set ps" for y
    using sorted_le_last [of "sort ps" y] that by simp
  ultimately show ?thesis by (intro Max_eqI [symmetric]) auto
qed

text \<open>
  What a returned result looks like: either the empty result of a degenerate request, or
  the tables satisfy both invariants and the result is the empty one (nothing reachable
  in the scanned range) or is read off the first reachable row \<open>b\<close>.
\<close>

lemma Calculate_Inr_cases:
  assumes run: "Calculate order ps = Some (Inr r)"
    and rng: "is_int64 order" "\<forall>s \<in> set ps. is_int64 s"
  shows "(r = empty_result \<and> (order \<le> 0 \<or> ps = [])) \<or>
         (\<exists>limit dp parent. 0 < order \<and> ps \<noteq> [] \<and> limit = add64 order (Max (set ps)) \<and>
            0 \<le> limit \<and> limit \<le> 9223372036854775806 \<and> int (length dp) = limit + 1 \<and>
            tab_inv (set ps) limit (dp, parent) \<and> opt_inv (set ps) limit dp \<and>
            ((r = empty_result \<and> (\<forall>j. order \<le> j \<and> j \<le> limit \<longrightarrow> dp ! nat j = MaxInt32)) \<or>
             (\<exists>b. order \<le> b \<and> b \<le> limit \<and> dp ! nat b \<noteq> MaxInt32 \<and>
                (\<forall>j. order \<le> j \<and> j < b \<longrightarrow> dp ! nat j = MaxInt32) \<and>
                TotalItems r = b \<and> TotalPacks r = dp ! nat b \<and> Waste r = b - order \<and>
                finite (dom (PackCounts r)) \<and> (\<forall>s \<in> dom (PackCounts r). 0 < the (PackCounts r s)) \<and>
                dom (PackCounts r) \<subseteq> set ps \<and>
                total_items (PackCounts r) = b \<and> total_packs (PackCounts r) = dp ! nat b)))"
proof (cases "order \<le> 0 \<or> ps = []")
  case True
  then show ?thesis using run by (auto simp: Calculate_def split: if_splits)
next
  case False
  then have o: "0 < order" and ne: "ps \<noteq> []" by simp_all
  define limit where "limit = add64 order (Max (set ps))"
  define n where "n = add64 limit 1"
  let ?S = "set ps"
  have run': "(case make_slice n of
             Inl e \<Rightarrow> Some (Inl e)
           | Inr dp0 \<Rightarrow>
          (case store (map (\<lambda>_. MaxInt32) dp0) 0 0 of
             Inl e \<Rightarrow> Some (Inl e)
           | Inr dp1 \<Rightarrow>
          (case make_slice n of
             Inl e \<Rightarrow> Some (Inl e)
           | Inr parent0 \<Rightarrow>
          (case fill_table 1 limit (sort ps) (dp1, parent0) of
             Inl e \<Rightarrow> Some (Inl e)
           | Inr (dp, parent) \<Rightarrow>
          (case find_best order limit dp (- 1, MaxInt32) of
             Inl e \<Rightarrow> Some (Inl e)
           | Inr (bestItems, bestPacks) \<Rightarrow>
               if bestItems = - 1 then Some (Inr empty_result)
               else
                 (case backtrack parent bestItems Map.empty of
                    None \<Rightarrow> None
                  | Some (Inl e) \<Rightarrow> Some (Inl e)
                  | Some (Inr packCounts) \<Rightarrow>
                      Some (Inr \<lparr>PackCounts = packCounts, TotalItems = bestItems,
                                 TotalPacks = bestPacks,
                                 Waste = sub64 bestItems order\<rparr>))))))) = Some (Inr r)"
    using run o ne unfolding Calculate_def Let_def last_sort_Max [OF ne]
      limit_def [symmetric] n_def [symmetric] by simp
  from run' have n0: "0 \<le> n" by (auto simp: make_slice_def split: if_splits)
  from run' have n8: "8 * n \<le> maxAlloc" by (auto simp: make_slice_def split: if_splits)
  have ms: "make_slice n = Inr (replicate (nat n) 0)" using n0 n8 by (simp add: make_slice_def)
  have run1: "(case store (replicate (nat n) MaxInt32) 0 0 of
             Inl e \<Rightarrow> Some (Inl e)
           | Inr dp1 \<Rightarrow>
          (case fill_table 1 limit (sort ps) (dp1, replicate (nat n) 0) of
             Inl e \<Rightarrow> Some (Inl e)
           | Inr (dp, parent) \<Rightarrow>
          (case find_best order limit dp (- 1, MaxInt32) of
             Inl e \<Rightarrow> Some (Inl e)
           | Inr (bestItems, bestPacks) \<Rightarrow>
               if bestItems = - 1 then Some (Inr empty_result)
               else
                 (case backtrack parent bestItems Map.empty of
                    None \<Rightarrow> None
                  | Some (Inl e) \<Rightarrow> Some (Inl e)
                  | Some (Inr packCounts) \<Rightarrow>
                      Some (Inr \<lparr>PackCounts = packCounts, TotalItems = bestItems,
                                 TotalPacks = bestPacks,
                                 Waste = sub64 bestItems order\<rparr>))))) = Some (Inr r)"
    using run' unfolding ms sum.case map_replicate .
  from run1 have n1: "1 \<le> n" by (auto simp: store_def split: if_splits)
  have il: "is_int64 limit" unfolding limit_def add64_def by (rule is_int64_wrap64)
  have nl: "n = limit + 1" and lb: "limit \<le> 9223372036854775806"
    using add64_one [OF il] n1 unfolding n_def by simp_all
  have l0: "0 \<le> limit" using nl n1 by simp
  let ?dp1 = "(replicate (nat (limit + 1)) MaxInt32)[0 := 0]"
  let ?parent0 = "replicate (nat (limit + 1)) (0::int)"
  from run1 obtain dp parent where
    ft: "fill_table 1 limit (sort ps) (?dp1, ?parent0) = Inr (dp, parent)"
    and run2: "(case find_best order limit dp (- 1, MaxInt32) of
             Inl e \<Rightarrow> Some (Inl e)
           | Inr (bestItems, bestPacks) \<Rightarrow>
               if bestItems = - 1 then Some (Inr empty_result)
               else
                 (case backtrack parent bestItems Map.empty of
                    None \<Rightarrow> None
                  | Some (Inl e) \<Rightarrow> Some (Inl e)
                  | Some (Inr packCounts) \<Rightarrow>
                      Some (Inr \<lparr>PackCounts = packCounts, TotalItems = bestItems,
                                 TotalPacks = bestPacks,
                                 Waste = sub64 bestItems order\<rparr>))) = Some (Inr r)"
    using n1 by (auto simp: store_def nl split: sum.splits)
  have i0: "tab_inv ?S (1 - 1) (?dp1, ?parent0)" using init_tab_inv [OF l0] by simp
  have szs: "\<forall>sz \<in> set (sort ps). is_int64 sz \<and> sz \<in> ?S" using rng(2) by simp
  have len0: "int (length (fst (?dp1, ?parent0))) = limit + 1" using l0 by simp
  have T: "tab_inv ?S limit (dp, parent)" and len: "int (length dp) = limit + 1"
    using fill_table_inv [OF ft i0 _ _ len0 il szs] l0 by simp_all
  have o0: "opt_inv ?S (1 - 1) (fst (?dp1, ?parent0))" by (simp add: init_opt_inv)
  have O: "opt_inv ?S limit dp"
    using fill_table_opt [OF ft i0 _ _ len0 il szs _ o0] l0 by simp
  from find_best_scan [of order limit dp] o len
  obtain b bp where fb: "find_best order limit dp (- 1, MaxInt32) = Inr (b, bp)"
    and c: "(b = - 1 \<and> (\<forall>j. order \<le> j \<and> j \<le> limit \<longrightarrow> dp ! nat j = MaxInt32)) \<or>
            (order \<le> b \<and> b \<le> limit \<and> dp ! nat b \<noteq> MaxInt32 \<and> bp = dp ! nat b \<and>
             (\<forall>j. order \<le> j \<and> j < b \<longrightarrow> dp ! nat j = MaxInt32))"
    by force
  show ?thesis
  proof (cases "b = - 1")
    case True
    then have "r = empty_result" using run2 fb by simp
    moreover have "\<forall>j. order \<le> j \<and> j \<le> limit \<longrightarrow> dp ! nat j = MaxInt32"
      using c True o by auto
    ultimately show ?thesis using o ne l0 lb len T O limit_def by blast
  next
    case False
    then have B: "order \<le> b" "b \<le> limit" "dp ! nat b \<noteq> MaxInt32" "bp = dp ! nat b"
      "\<forall>j. order \<le> j \<and> j < b \<longrightarrow> dp ! nat j = MaxInt32"
      using c by auto
    have dpb: "dp ! nat b \<le> MaxInt32"
      using T B(1,2) o len unfolding tab_inv_def by auto
    have e0: "total_packs Map.empty + dp ! nat b \<le> MaxInt32"
      using dpb by (simp add: total_packs_def)
    from backtrack_correct [OF T len il _ B(2,3) _ _ e0] B(1) o
    obtain pc' where R: "backtrack parent b Map.empty = Some (Inr pc')" "finite (dom pc')"
      "\<forall>s \<in> dom pc'. 0 < the (pc' s)" "dom pc' \<subseteq> ?S"
      "total_items pc' = b" "total_packs pc' = dp ! nat b"
      by (auto simp: total_items_def total_packs_def)
    have w: "sub64 b order = b - order"
      using B(1,2) o lb by (simp add: sub64_def wrap64_id is_int64_def)
    have r: "r = \<lparr>PackCounts = pc', TotalItems = b, TotalPacks = dp ! nat b, Waste = b - order\<rparr>"
      using run2 fb False R(1) B(4) w by simp
    have "\<exists>b. order \<le> b \<and> b \<le> limit \<and> dp ! nat b \<noteq> MaxInt32 \<and>
                (\<forall>j. order \<le> j \<and> j < b \<longrightarrow> dp ! nat j = MaxInt32) \<and>
                TotalItems r = b \<and> TotalPacks r = dp ! nat b \<and> Waste r = b - order \<and>
                finite (dom (PackCounts r)) \<and> (\<forall>s \<in> dom (PackCounts r). 0 < the (PackCounts r s)) \<and>
                dom (PackCounts r) \<subseteq> set ps \<and>
                total_items (PackCounts r) = b \<and> total_packs (PackCounts r) = dp ! nat b"
      using B R r by (intro exI [of _ b]) simp
    then show ?thesis using o ne l0 lb len T O limit_def by blast
  qed
qed

lemma Calculate_returns:
  assumes o: "0 < order" and ne: "ps \<noteq> []" and pos: "\<forall>s \<in> set ps. 0 < s"
    and bound: "order + Max (set ps) \<le> 35184372088831"
  shows "\<exists>r. Calculate order ps = Some (Inr r)"
proof -
  let ?S = "set ps"
  define limit where "limit = order + Max ?S"
  have Mp: "0 < Max ?S" using pos ne by simp
  have Mle: "s \<le> Max ?S" if "s \<in> ?S" for s using that by simp
  have il: "is_int64 limit" using o Mp bound by (simp add: limit_def is_int64_def)
  have l0: "0 \<le> limit" using o Mp by (simp add: limit_def)
  have a1: "add64 order (last (sort ps)) = limit"
    using il by (simp add: add64_def last_sort_Max [OF ne] limit_def wrap64_id)
  have a2: "add64 limit 1 = limit + 1"
    using l0 bound by (simp add: add64_def wrap64_id is_int64_def limit_def)
  have ms: "make_slice (limit + 1) = Inr (replicate (nat (limit + 1)) 0)"
    using l0 bound by (simp add: make_slice_def maxAlloc_def limit_def)
  let ?dp1 = "(replicate (nat (limit + 1)) MaxInt32)[0 := 0]"
  let ?parent0 = "replicate (nat (limit + 1)) (0::int)"
  have st: "store (replicate (nat (limit + 1)) MaxInt32) 0 0 = Inr ?dp1"
    using l0 by (simp add: store_def)
  have i0: "tab_inv ?S (1 - 1) (?dp1, ?parent0)" using init_tab_inv [OF l0] by simp
  have szs: "\<forall>sz \<in> set (sort ps). 0 < sz \<and> is_int64 sz \<and> sz \<in> ?S"
  proof
    fix sz assume "sz \<in> set (sort ps)"
    then have m: "sz \<in> ?S" by simp
    have a: "0 < sz" using pos m by simp
    have b: "sz \<le> Max ?S" using Mle m .
    from a b o bound have "is_int64 sz" unfolding is_int64_def by linarith
    then show "0 < sz \<and> is_int64 sz \<and> sz \<in> ?S" using a m by simp
  qed
  then have szs': "\<forall>sz \<in> set (sort ps). is_int64 sz \<and> sz \<in> ?S" by simp
  have len0: "int (length (fst (?dp1, ?parent0))) = limit + 1" using l0 by simp
  from fill_table_total [OF i0 _ _ len0 il szs] l0
  obtain dp parent where ft: "fill_table 1 limit (sort ps) (?dp1, ?parent0) = Inr (dp, parent)"
    by fastforce
  have T: "tab_inv ?S limit (dp, parent)" and len: "int (length dp) = limit + 1"
    using fill_table_inv [OF ft i0 _ _ len0 il szs'] l0 by simp_all
  from find_best_scan [of order limit dp] o len
  obtain b bp where fb: "find_best order limit dp (- 1, MaxInt32) = Inr (b, bp)"
    and c: "(b = - 1 \<and> (\<forall>j. order \<le> j \<and> j \<le> limit \<longrightarrow> dp ! nat j = MaxInt32)) \<or>
            (order \<le> b \<and> b \<le> limit \<and> dp ! nat b \<noteq> MaxInt32 \<and> bp = dp ! nat b \<and>
             (\<forall>j. order \<le> j \<and> j < b \<longrightarrow> dp ! nat j = MaxInt32))"
    by force
  show ?thesis
  proof (cases "b = - 1")
    case True
    then show ?thesis using o ne
      by (simp add: Calculate_def Let_def a1 a2 ms st ft fb)
  next
    case False
    then have B: "order \<le> b" "b \<le> limit" "dp ! nat b \<noteq> MaxInt32"
      using c by auto
    have dpb: "dp ! nat b \<le> MaxInt32"
      using T B(1,2) o len unfolding tab_inv_def by auto
    have e0: "total_packs Map.empty + dp ! nat b \<le> MaxInt32"
      using dpb by (simp add: total_packs_def)
    from backtrack_correct [OF T len il _ B(2,3) _ _ e0] B(1) o
    obtain pc' where R: "backtrack parent b Map.empty = Some (Inr pc')"
      by auto
    show ?thesis using o ne False
      by (simp add: Calculate_def Let_def a1 a2 ms st ft fb R)
  qed
qed

section \<open>The table holds minimal pack counts\<close>

lemma sum_list_pos:
  fixes qs :: "int list"
  assumes "\<forall>s \<in> set qs. 0 < s"
  shows "int (length qs) \<le> sum_list qs"
  using assms by (induction qs) auto

lemma opt_invD:
  assumes "opt_inv S i dp" "0 < j" "j \<le> i" "sz \<in> S" "0 < sz" "sz \<le> j"
    "dp ! nat (j - sz) \<noteq> MaxInt32"
  shows "dp ! nat j \<le> dp ! nat (j - sz) + 1"
  using assms unfolding opt_inv_def by blast

lemma dp_le_length:
  assumes inv: "tab_inv S limit (dp, parent)" and opt: "opt_inv S limit dp"
    and pos: "\<forall>s \<in> S. 0 < s"
    and qs: "set qs \<subseteq> S" "sum_list qs \<le> limit" "int (length qs) < MaxInt32"
  shows "dp ! nat (sum_list qs) \<le> int (length qs)"
  using qs
proof (induction qs)
  case Nil
  then show ?case using inv by (simp add: tab_inv_def)
next
  case (Cons s rest)
  have s: "s \<in> S" "0 < s" using Cons.prems(1) pos by auto
  have rp: "\<forall>x \<in> set rest. 0 < x" using Cons.prems(1) pos by auto
  have r0: "0 \<le> sum_list rest" using sum_list_pos [OF rp] by simp
  have IH: "dp ! nat (sum_list rest) \<le> int (length rest)"
    using Cons.IH Cons.prems s(2) by simp
  then have ne: "dp ! nat (s + sum_list rest - s) \<noteq> MaxInt32" using Cons.prems(3) by simp
  have "dp ! nat (s + sum_list rest) \<le> dp ! nat (s + sum_list rest - s) + 1"
    using opt_invD [OF opt _ _ s(1,2) _ ne] s(2) r0 Cons.prems(2) by simp
  then show ?case using IH by simp
qed

lemma tight_suffix:
  fixes qs :: "int list"
  assumes "\<forall>s \<in> set qs. 0 < s" "order \<le> sum_list qs" "0 < order"
  shows "\<exists>s rest. set (s # rest) \<subseteq> set qs \<and> order \<le> s + sum_list rest \<and>
           sum_list rest < order \<and> s + sum_list rest \<le> sum_list qs"
  using assms
proof (induction qs)
  case Nil
  then show ?case by simp
next
  case (Cons a qs)
  show ?case
  proof (cases "order \<le> sum_list qs")
    case True
    from Cons.IH [OF _ True Cons.prems(3)] Cons.prems(1)
    obtain s rest where "set (s # rest) \<subseteq> set qs" "order \<le> s + sum_list rest"
      "sum_list rest < order" "s + sum_list rest \<le> sum_list qs"
      by auto
    then show ?thesis using Cons.prems(1)
      by (intro exI [of _ s] exI [of _ rest]) auto
  next
    case False
    then show ?thesis using Cons.prems
      by (intro exI [of _ a] exI [of _ qs]) auto
  qed
qed

text \<open>
  A list of packs that covers the order can be cut down to one that still covers it, whose
  total stays below the order plus the largest size, with at most \<open>order\<close> packs.
\<close>

lemma tight_cover:
  fixes qs :: "int list"
  assumes pos: "\<forall>s \<in> S. 0 < s" and fin: "finite S"
    and o: "0 < order"
    and qs: "set qs \<subseteq> S" "order \<le> sum_list qs"
  shows "\<exists>qs'. set qs' \<subseteq> S \<and> order \<le> sum_list qs' \<and> sum_list qs' < order + Max S \<and>
           sum_list qs' \<le> sum_list qs \<and> int (length qs') \<le> order"
proof -
  have qp: "\<forall>s \<in> set qs. 0 < s" using qs(1) pos by auto
  from tight_suffix [OF qp qs(2) o]
  obtain s rest where t: "set (s # rest) \<subseteq> set qs" "order \<le> s + sum_list rest"
    "sum_list rest < order" "s + sum_list rest \<le> sum_list qs"
    by blast
  have sS: "s \<in> S" and rS: "set (s # rest) \<subseteq> S" using t(1) qs(1) by auto
  have sM: "s \<le> Max S" using sS fin by simp
  have rp: "\<forall>x \<in> set rest. 0 < x" using rS pos by auto
  have lr: "int (length rest) \<le> sum_list rest" using sum_list_pos [OF rp] .
  have len: "int (length (s # rest)) \<le> order" using lr t(3) by simp
  have le: "sum_list (s # rest) < order + Max S" using sM t(3) by simp
  show ?thesis
    using rS t(2,4) le len by (intro exI [of _ "s # rest"]) simp
qed

text \<open>
  When some total in the scanned range is the sum of fewer than \<open>MaxInt32\<close> packs,
  \<open>Calculate\<close> returns the first such total, as a sum of packs, in the fewest packs.
\<close>

lemma Calculate_found:
  assumes o: "0 < order" and ne: "ps \<noteq> []"
    and pos: "\<forall>s \<in> set ps. 0 < s"
    and bound: "order + Max (set ps) \<le> 35184372088831"
    and q0: "set q0 \<subseteq> set ps" "order \<le> sum_list q0" "sum_list q0 \<le> order + Max (set ps)"
      "int (length q0) < MaxInt32"
  shows "\<exists>r. Calculate order ps = Some (Inr r) \<and>
           order \<le> TotalItems r \<and> TotalItems r \<le> sum_list q0 \<and>
           Waste r = TotalItems r - order \<and>
           finite (dom (PackCounts r)) \<and> dom (PackCounts r) \<subseteq> set ps \<and>
           (\<forall>s \<in> dom (PackCounts r). 0 < the (PackCounts r s)) \<and>
           total_items (PackCounts r) = TotalItems r \<and>
           total_packs (PackCounts r) = TotalPacks r \<and>
           (\<forall>qs. set qs \<subseteq> set ps \<and> sum_list qs = TotalItems r \<longrightarrow>
              TotalPacks r \<le> int (length qs))"
proof -
  let ?S = "set ps"
  from Calculate_returns [OF o ne pos bound]
  obtain r where run: "Calculate order ps = Some (Inr r)" by blast
  have Mp: "0 < Max ?S" using pos ne by simp
  have io: "is_int64 order" using o Mp bound by (simp add: is_int64_def)
  have isz: "\<forall>s \<in> ?S. is_int64 s"
  proof
    fix s assume m: "s \<in> ?S"
    have a: "0 < s" using pos m by simp
    have b: "s \<le> Max ?S" using m by simp
    from a b o bound show "is_int64 s" unfolding is_int64_def by linarith
  qed
  have lim: "add64 order (Max ?S) = order + Max ?S"
    using o Mp bound by (simp add: add64_def wrap64_id is_int64_def)
  from Calculate_Inr_cases [OF run io isz] o ne lim
  obtain dp parent where
    T: "tab_inv ?S (order + Max ?S) (dp, parent)" and O: "opt_inv ?S (order + Max ?S) dp"
    and len: "int (length dp) = order + Max ?S + 1"
    and c: "(r = empty_result \<and>
               (\<forall>j. order \<le> j \<and> j \<le> order + Max ?S \<longrightarrow> dp ! nat j = MaxInt32)) \<or>
             (\<exists>b. order \<le> b \<and> b \<le> order + Max ?S \<and> dp ! nat b \<noteq> MaxInt32 \<and>
                (\<forall>j. order \<le> j \<and> j < b \<longrightarrow> dp ! nat j = MaxInt32) \<and>
                TotalItems r = b \<and> TotalPacks r = dp ! nat b \<and> Waste r = b - order \<and>
                finite (dom (PackCounts r)) \<and> (\<forall>s \<in> dom (PackCounts r). 0 < the (PackCounts r s)) \<and>
                dom (PackCounts r) \<subseteq> set ps \<and>
                total_items (PackCounts r) = b \<and> total_packs (PackCounts r) = dp ! nat b)"
    by auto
  have "dp ! nat (sum_list q0) \<le> int (length q0)"
    using dp_le_length [OF T O pos q0(1,3,4)] .
  then have r0: "dp ! nat (sum_list q0) \<noteq> MaxInt32" using q0(4) by simp
  with c q0(2,3) obtain b where B: "order \<le> b" "b \<le> order + Max ?S" "dp ! nat b \<noteq> MaxInt32"
    "\<forall>j. order \<le> j \<and> j < b \<longrightarrow> dp ! nat j = MaxInt32"
    "TotalItems r = b" "TotalPacks r = dp ! nat b" "Waste r = b - order"
    "finite (dom (PackCounts r))" "\<forall>s \<in> dom (PackCounts r). 0 < the (PackCounts r s)"
    "dom (PackCounts r) \<subseteq> set ps"
    "total_items (PackCounts r) = b" "total_packs (PackCounts r) = dp ! nat b"
    by blast
  have "\<not> sum_list q0 < b" using B(4) q0(2) r0 by auto
  then have bq: "b \<le> sum_list q0" by simp
  have dpb: "dp ! nat b \<le> MaxInt32"
    using T B(1,2) o len unfolding tab_inv_def by auto
  have fewest: "dp ! nat b \<le> int (length qs)" if qs: "set qs \<subseteq> ?S" "sum_list qs = b" for qs
  proof (cases "int (length qs) < MaxInt32")
    case True
    show ?thesis using dp_le_length [OF T O pos qs(1) _ True] qs(2) B(2) by simp
  next
    case False
    then show ?thesis using dpb by simp
  qed
  show ?thesis
    using run B bq fewest by (intro exI [of _ r]) simp
qed

text \<open>
  Optimality. It needs the least total that covers the order to be the sum of fewer than
  \<open>MaxInt32\<close> packs; an order quantity below \<open>MaxInt32\<close> is enough for that.
\<close>

lemma Calculate_minimal:
  assumes o: "0 < order" and ne: "ps \<noteq> []"
    and pos: "\<forall>s \<in> set ps. 0 < s"
    and bound: "order + Max (set ps) \<le> 35184372088831"
    and few: "order \<le> 2147483646 \<or>
            (\<exists>q. set q \<subseteq> set ps \<and> order \<le> sum_list q \<and> int (length q) < MaxInt32 \<and>
               (\<forall>qs. set qs \<subseteq> set ps \<and> order \<le> sum_list qs \<longrightarrow> sum_list q \<le> sum_list qs))"
  shows "\<exists>r. Calculate order ps = Some (Inr r) \<and>
           order \<le> TotalItems r \<and> TotalItems r \<le> order + Max (set ps) \<and>
           Waste r = TotalItems r - order \<and>
           finite (dom (PackCounts r)) \<and> dom (PackCounts r) \<subseteq> set ps \<and>
           (\<forall>s \<in> dom (PackCounts r). 0 < the (PackCounts r s)) \<and>
           total_items (PackCounts r) = TotalItems r \<and>
           total_packs (PackCounts r) = TotalPacks r \<and>
           (\<forall>qs. set qs \<subseteq> set ps \<and> order \<le> sum_list qs \<longrightarrow>
              TotalItems r \<le> sum_list qs \<and>
              (sum_list qs = TotalItems r \<longrightarrow> TotalPacks r \<le> int (length qs)))"
proof -
  let ?S = "set ps"
  have below: "\<exists>q1. set q1 \<subseteq> ?S \<and> order \<le> sum_list q1 \<and> sum_list q1 \<le> order + Max ?S \<and>
                 int (length q1) < MaxInt32 \<and> sum_list q1 \<le> sum_list qs"
    if qs: "set qs \<subseteq> ?S" "order \<le> sum_list qs" for qs
    using few
  proof
    assume small: "order \<le> 2147483646"
    from tight_cover [OF pos _ o qs]
    obtain qs' where "set qs' \<subseteq> ?S" "order \<le> sum_list qs'" "sum_list qs' < order + Max ?S"
      "sum_list qs' \<le> sum_list qs" "int (length qs') \<le> order"
      by auto
    then show ?thesis using small by (intro exI [of _ qs']) (simp add: MaxInt32_def)
  next
    assume "\<exists>q. set q \<subseteq> ?S \<and> order \<le> sum_list q \<and> int (length q) < MaxInt32 \<and>
               (\<forall>qs. set qs \<subseteq> ?S \<and> order \<le> sum_list qs \<longrightarrow> sum_list q \<le> sum_list qs)"
    then obtain q where q: "set q \<subseteq> ?S" "order \<le> sum_list q" "int (length q) < MaxInt32"
      and least: "\<And>qs. set qs \<subseteq> ?S \<Longrightarrow> order \<le> sum_list qs \<Longrightarrow> sum_list q \<le> sum_list qs"
      by blast
    from tight_cover [OF pos _ o q(1,2)]
    obtain q' where q': "set q' \<subseteq> ?S" "order \<le> sum_list q'" "sum_list q' < order + Max ?S"
      by auto
    have "sum_list q \<le> sum_list q'" using least [OF q'(1,2)] .
    then have "sum_list q \<le> order + Max ?S" using q'(3) by simp
    moreover have "sum_list q \<le> sum_list qs" using least [OF qs] .
    ultimately show ?thesis using q by (intro exI [of _ q]) simp
  qed
  obtain s0 where s0: "s0 \<in> ?S" using ne by (cases ps) auto
  have "1 \<le> s0" using pos s0 by fastforce
  then have "order \<le> sum_list (replicate (nat order) s0)"
    using o by (simp add: sum_list_replicate mult_le_cancel_left1)
  moreover have "set (replicate (nat order) s0) \<subseteq> ?S" using s0 by auto
  ultimately obtain q0 where q0: "set q0 \<subseteq> ?S" "order \<le> sum_list q0"
    "sum_list q0 \<le> order + Max ?S" "int (length q0) < MaxInt32"
    using below [of "replicate (nat order) s0"] by blast
  from Calculate_found [OF o ne pos bound q0]
  obtain r where run: "Calculate order ps = Some (Inr r)"
    and r: "order \<le> TotalItems r" "TotalItems r \<le> sum_list q0"
    "Waste r = TotalItems r - order"
    "finite (dom (PackCounts r))" "dom (PackCounts r) \<subseteq> set ps"
    "\<forall>s \<in> dom (PackCounts r). 0 < the (PackCounts r s)"
    "total_items (PackCounts r) = TotalItems r"
    "total_packs (PackCounts r) = TotalPacks r"
    and fewest: "\<And>qs. set qs \<subseteq> ?S \<Longrightarrow> sum_list qs = TotalItems r \<Longrightarrow>
                   TotalPacks r \<le> int (length qs)"
    by blast
  have least: "TotalItems r \<le> sum_list qs" if qs: "set qs \<subseteq> ?S" "order \<le> sum_list qs" for qs
  proof -
    from below [OF qs] obtain q1 where q1: "set q1 \<subseteq> ?S" "order \<le> sum_list q1"
      "sum_list q1 \<le> order + Max ?S" "int (length q1) < MaxInt32"
      and le: "sum_list q1 \<le> sum_list qs"
      by blast
    from Calculate_found [OF o ne pos bound q1]
    obtain r' where "Calculate order ps = Some (Inr r')" "TotalItems r' \<le> sum_list q1"
      by blast
    then show ?thesis using run le by simp
  qed
  have "TotalItems r \<le> order + Max ?S" using r(2) q0(3) by simp
  then show ?thesis
    using run r least fewest by (intro exI [of _ r]) simp
qed

lemma Calculate_positive:
  assumes o: "0 < order" "order \<le> 2147483646" and ne: "ps \<noteq> []"
    and pos: "\<forall>s \<in> set ps. 0 < s"
    and bound: "order + Max (set ps) \<le> 35184372088831"
  shows "\<exists>r. Calculate order ps = Some (Inr r) \<and>
           order \<le> TotalItems r \<and> TotalItems r \<le> order + Max (set ps) \<and>
           Waste r = TotalItems r - order \<and>
           finite (dom (PackCounts r)) \<and> dom (PackCounts r) \<subseteq> set ps \<and>
           (\<forall>s \<in> dom (PackCounts r). 0 < the (PackCounts r s)) \<and>
           total_items (PackCounts r) = TotalItems r \<and>
           total_packs (PackCounts r) = TotalPacks r \<and>
           (\<forall>qs. set qs \<subseteq> set ps \<and> order \<le> sum_list qs \<longrightarrow>
              TotalItems r \<le> sum_list qs \<and>
              (sum_list qs = TotalItems r \<longrightarrow> TotalPacks r \<le> int (length qs)))"
  by (rule Calculate_minimal [OF o(1) ne pos bound disjI1 [OF o(2)]])

text \<open>
  Beyond the allocation limit of \<open>make\<close>, and when \<open>order + maxSize\<close> or \<open>limit + 1\<close> wraps
  around, \<open>Calculate\<close> panics at its first \<open>make\<close>.
\<close>

lemma wrap64_over:
  assumes "9223372036854775808 \<le> x" "x < 27670116110564327424"
  shows "wrap64 x = x - 18446744073709551616"
proof -
  have "x + 9223372036854775808 = (x - 9223372036854775808) + 18446744073709551616"
    by simp
  then have "(x + 9223372036854775808) mod 18446744073709551616 =
        (x - 9223372036854775808) mod 18446744073709551616"
    by (simp only: mod_add_self2)
  also have "\<dots> = x - 9223372036854775808"
    using assms by (intro mod_pos_pos_trivial) simp_all
  finally show ?thesis by (simp add: wrap64_def)
qed

lemma Calculate_len_out_of_range:
  assumes o: "0 < order" and ne: "ps \<noteq> []" and pos: "\<forall>s \<in> set ps. 0 < s"
    and rng: "is_int64 order" "\<forall>s \<in> set ps. is_int64 s"
    and big: "35184372088831 < order + Max (set ps)"
  shows "Calculate order ps = Some (Inl MakeSliceLenOutOfRange)"
proof -
  let ?M = "Max (set ps)"
  have Min: "?M \<in> set ps" using ne by simp
  have M: "0 < ?M" "?M \<le> 9223372036854775807" using pos rng(2) Min by (auto simp: is_int64_def)
  have O: "order \<le> 9223372036854775807" using rng(1) by (simp add: is_int64_def)
  have n: "add64 (add64 order ?M) 1 < 0 \<or> 35184372088832 < add64 (add64 order ?M) 1"
  proof (cases "order + ?M \<le> 9223372036854775806")
    case True
    then have "add64 order ?M = order + ?M" using o M by (simp add: add64_def wrap64_id is_int64_def)
    moreover have "add64 (order + ?M) 1 = order + ?M + 1"
      using True o M by (simp add: add64_def wrap64_id is_int64_def)
    ultimately show ?thesis using big by simp
  next
    case False
    show ?thesis
    proof (cases "order + ?M = 9223372036854775807")
      case True
      then have "add64 order ?M = 9223372036854775807"
        by (simp add: add64_def wrap64_id is_int64_def)
      then show ?thesis by (simp add: add64_def wrap64_def)
    next
      case False
      with \<open>\<not> order + ?M \<le> 9223372036854775806\<close>
      have lo: "9223372036854775808 \<le> order + ?M" by simp
      have hi: "order + ?M < 27670116110564327424" using O M by simp
      have l: "wrap64 (order + ?M) = order + ?M - 18446744073709551616"
        by (rule wrap64_over [OF lo hi])
      have "is_int64 (order + ?M - 18446744073709551616 + 1)"
        using lo O M by (simp add: is_int64_def)
      then have "add64 (add64 order ?M) 1 = order + ?M - 18446744073709551616 + 1"
        unfolding add64_def l by (rule wrap64_id)
      then show ?thesis using O M by simp
    qed
  qed
  then have "make_slice (add64 (add64 order ?M) 1) = Inl MakeSliceLenOutOfRange"
    by (auto simp: make_slice_def maxAlloc_def)
  then show ?thesis
    using o ne by (simp add: Calculate_def Let_def last_sort_Max [OF ne])
qed

section \<open>Beyond the sentinel\<close>

lemma ones_table:
  assumes inv: "tab_inv {1} limit (dp, parent)" and len: "int (length dp) = limit + 1"
    and j: "0 \<le> j" "j \<le> limit" "dp ! nat j \<noteq> MaxInt32"
  shows "dp ! nat j = j"
  using j
proof (induction "nat j" arbitrary: j)
  case 0
  then show ?case using inv by (simp add: tab_inv_def)
next
  case (Suc n)
  then have jp: "0 < j" by simp
  have P: "parent ! nat j = 1" "dp ! nat (j - 1) \<noteq> MaxInt32"
    "dp ! nat j = dp ! nat (j - 1) + 1"
    using inv jp Suc.prems(2,3) len unfolding tab_inv_def by auto
  have "dp ! nat (j - 1) = j - 1"
    using Suc.hyps(1) [of "j - 1"] Suc.hyps(2) jp Suc.prems(2) P(2) by simp
  then show ?case using P(3) by simp
qed

lemma Calculate_ones_beyond_sentinel:
  assumes o: "2147483647 \<le> order" "order \<le> 4294967296"
  shows "Calculate order [1] = Some (Inr empty_result)"
proof -
  have bound: "order + Max (set [1]) \<le> 35184372088831" using o by simp
  from Calculate_returns [of order "[1]"] o bound
  obtain r where run: "Calculate order [1] = Some (Inr r)" by auto
  have io: "is_int64 order" using o by (simp add: is_int64_def)
  have lim: "add64 order 1 = order + 1"
    using o by (simp add: add64_def wrap64_id is_int64_def)
  from Calculate_Inr_cases [OF run io] o(1) lim
  obtain dp parent where
    T: "tab_inv {1} (order + 1) (dp, parent)"
    and len: "int (length dp) = order + 1 + 1"
    and c: "r = empty_result \<or>
             (\<exists>b. order \<le> b \<and> b \<le> order + 1 \<and> dp ! nat b \<noteq> MaxInt32)"
    by (auto simp: is_int64_def)
  have "dp ! nat b = MaxInt32" if b: "order \<le> b" "b \<le> order + 1" for b
  proof (rule ccontr)
    assume n: "dp ! nat b \<noteq> MaxInt32"
    have "dp ! nat b = b" using ones_table [OF T len _ b(2) n] b(1) o(1) by simp
    moreover have "dp ! nat b \<le> MaxInt32"
      using T b o(1) len unfolding tab_inv_def by auto
    ultimately show False using n b(1) o(1) by (simp add: MaxInt32_def)
  qed
  then have "r = empty_result" using c by blast
  then show ?thesis using run by simp
qed

section \<open>Arithmetic of the given scenario\<close>

lemma dioph_small:
  fixes a b k :: int
  assumes e: "30 * a + 22 * b + 53 * k = 214" and n: "0 \<le> a" "0 \<le> b" "0 \<le> k"
  shows "a = 2 \<and> b = 7 \<and> k = 0"
proof -
  have "k \<le> 4" "a \<le> 7" using e n by linarith+
  then have ks: "k = 0 \<or> k = 1 \<or> k = 2 \<or> k = 3 \<or> k = 4"
    and as: "a = 0 \<or> a = 1 \<or> a = 2 \<or> a = 3 \<or> a = 4 \<or> a = 5 \<or> a = 6 \<or> a = 7"
    using n by linarith+
  from ks as e n(2) show ?thesis
    by (elim disjE; simp; presburger)
qed


lemma total_on_superset:
  assumes "finite T" "dom pc \<subseteq> T"
  shows "total_items pc = (\<Sum>s \<in> T. s * (case pc s of None \<Rightarrow> 0 | Some c \<Rightarrow> c))"
    and "total_packs pc = (\<Sum>s \<in> T. (case pc s of None \<Rightarrow> 0 | Some c \<Rightarrow> c))"
  unfolding total_items_def total_packs_def
  using assms by (auto intro!: sum.mono_neutral_cong_left split: option.splits)

section \<open>Lemmas on the key and on the cache operations\<close>

lemma sort_mset_eq:
  fixes xs ys :: "int list"
  assumes "mset xs = mset ys"
  shows "sort xs = sort ys"
  using assms by (metis properties_for_sort mset_sort sorted_sort)

lemma generateKey_perm:
  assumes "mset packSizes = mset packSizes'"
  shows "generateKey q packSizes = generateKey q packSizes'"
  using sort_mset_eq [OF assms] by (simp add: generateKey_def key_data_def)

lemma digit_char_hex: "n < 16 \<Longrightarrow> digit_char n \<in> set ''0123456789abcdef''"
  unfolding digit_char_def by (rule nth_mem) simp

lemma fmt_x_hex: "set (fmt_x bs) \<subseteq> set ''0123456789abcdef''"
proof
  fix x assume "x \<in> set (fmt_x bs)"
  then obtain b :: byte where "x = digit_char (unat b div 16) \<or> x = digit_char (unat b mod 16)"
    unfolding fmt_x_def by auto
  moreover have "unat b div 16 < 16" "unat b mod 16 < 16"
    using unsigned_less [of b, where 'a = nat] by simp_all
  ultimately show "x \<in> set ''0123456789abcdef''"
    using digit_char_hex by blast
qed

lemma generateKey_not_stats:
  "generateKey items packSizes \<noteq> StatsHitsKey"
  "generateKey items packSizes \<noteq> StatsMissesKey"
proof -
  let ?h = "fmt_x (take 16 (sha256 (bytes_of_string (key_data items packSizes))))"
  have "CHR ''s'' \<notin> set ?h" using fmt_x_hex [of "take 16 (sha256 (bytes_of_string (key_data items packSizes)))"]
    by auto
  then have "?h \<noteq> ''stats:hits''" "?h \<noteq> ''stats:misses''" by auto
  then show "generateKey items packSizes \<noteq> StatsHitsKey"
    "generateKey items packSizes \<noteq> StatsMissesKey"
    by (simp_all add: generateKey_def CacheKeyPrefix_def StatsHitsKey_def StatsMissesKey_def)
qed

lemma Get_ttl_capped:
  assumes "Get c items packSizes = (Some r, c')"
  shows "CurrentTTL r \<le> MaxTTL"
  using assms
  by (auto simp: Get_def Let_def split: if_splits reply.splits stored.splits)

lemma redis_incr_other:
  assumes "key \<noteq> k" "reachable r"
  shows "redis_get (redis_incr r k) key = redis_get r key" "reachable (redis_incr r k)"
  using assms
  by (auto simp: redis_incr_def redis_get_def update_conv' split: option.splits stored.splits)

lemma Get_hit:
  assumes "holds c (generateKey items packSizes) e"
  shows "\<exists>c'. Get c items packSizes = (Some (bump_entry e), c') \<and>
           holds c' (generateKey items packSizes) (bump_entry e)"
proof -
  let ?key = "generateKey items packSizes"
  let ?e' = "bump_entry e"
  let ?ttl = "CurrentTTL ?e'"
  let ?c1 = "snd (set_entry c ?key ?e' ?ttl)"
  have en: "enabled c" and re: "reachable (client c)"
    and g: "redis_get (client c) ?key = RedisOk (Entry e)"
    using assms by (simp_all add: holds_def)
  have G: "Get c items packSizes = (Some ?e', incrementHits ?c1)"
    using en g by (simp add: Get_def Let_def bump_entry_def)
  have c1: "enabled ?c1" "reachable (client ?c1)" "redis_get (client ?c1) ?key = RedisOk (Entry ?e')"
    using en re by (simp_all add: set_entry_def redis_set_def redis_get_def update_conv')
  have "holds (incrementHits ?c1) ?key ?e'"
    using c1 redis_incr_other [OF generateKey_not_stats(1) c1(2)]
    by (simp add: holds_def incrementHits_def)
  then show ?thesis using G by blast
qed

lemma Set_holds:
  assumes "enabled c" "reachable (client c)"
  shows "\<exists>e. holds (snd (Set c items packSizes result totalItems totalPacks waste calcTime now))
            (generateKey items packSizes) e \<and>
           Items e = items \<and> PackSizes e = packSizes \<and> Result e = result \<and>
           CachedResult.TotalItems e = totalItems \<and> CachedResult.TotalPacks e = totalPacks \<and>
           CachedResult.Waste e = waste \<and> CalculationTimeMs e = calcTime \<and> CachedAt e = now \<and>
           HitCount e = 0 \<and> CurrentTTL e = InitialTTL"
  using assms
  by (simp add: Set_def Let_def set_entry_def redis_set_def redis_get_def holds_def update_conv')

lemma bump_ttl:
  assumes "CurrentTTL e = min (2 ^ n * InitialTTL) MaxTTL"
  shows "CurrentTTL (bump_entry e) = min (2 ^ Suc n * InitialTTL) MaxTTL"
proof -
  let ?a = "2 ^ n * InitialTTL"
  have M: "0 \<le> MaxTTL" "MaxTTL \<le> 86400000000000" by (simp_all add: MaxTTL_def)
  have a0: "0 \<le> ?a" by (simp add: InitialTTL_def)
  have r: "0 \<le> CurrentTTL e" "CurrentTTL e \<le> MaxTTL"
    using assms a0 M(1) by simp_all
  then have m: "mul64 (CurrentTTL e) 2 = CurrentTTL e * 2"
    using M(2) by (simp add: mul64_def wrap64_id is_int64_def)
  have "CurrentTTL (bump_entry e) = min (CurrentTTL e * 2) MaxTTL"
    by (simp add: bump_entry_def m min_def)
  also have "\<dots> = min (min ?a MaxTTL * 2) MaxTTL" using assms by simp
  also have "\<dots> = min (2 * ?a) MaxTTL" using M(1) a0 by (simp add: min_def)
  finally show ?thesis by (simp add: mult.assoc)
qed

lemma Get_repeated_holds:
  assumes "holds c (generateKey items packSizes) e" "HitCount e = 0" "CurrentTTL e = InitialTTL"
  shows "\<exists>e' c'. Get_repeated (Suc n) c items packSizes = (Some e', c') \<and>
           holds c' (generateKey items packSizes) e' \<and>
           CurrentTTL e' = min (2 ^ Suc n * InitialTTL) MaxTTL \<and>
           (int (Suc n) \<le> 9223372036854775807 \<longrightarrow> HitCount e' = int (Suc n)) \<and>
           e'\<lparr>HitCount := 0, CurrentTTL := 0\<rparr> = e\<lparr>HitCount := 0, CurrentTTL := 0\<rparr>"
proof (induction n)
  case 0
  from Get_hit [OF assms(1)] obtain c'
    where g: "Get c items packSizes = (Some (bump_entry e), c')"
      "holds c' (generateKey items packSizes) (bump_entry e)" by blast
  have "CurrentTTL e = min (2 ^ 0 * InitialTTL) MaxTTL"
    using assms(3) by (simp add: InitialTTL_def MaxTTL_def)
  from bump_ttl [OF this] have t: "CurrentTTL (bump_entry e) = min (2 ^ Suc 0 * InitialTTL) MaxTTL" .
  have h: "HitCount (bump_entry e) = 1"
    using assms(2) by (simp add: bump_entry_def add64_def wrap64_def)
  have "(bump_entry e)\<lparr>HitCount := 0, CurrentTTL := 0\<rparr> = e\<lparr>HitCount := 0, CurrentTTL := 0\<rparr>"
    by (simp add: bump_entry_def)
  then show ?case using g t h by simp
next
  case (Suc n)
  then obtain e1 c1 where 1: "Get_repeated (Suc n) c items packSizes = (Some e1, c1)"
    "holds c1 (generateKey items packSizes) e1"
    "CurrentTTL e1 = min (2 ^ Suc n * InitialTTL) MaxTTL"
    "int (Suc n) \<le> 9223372036854775807 \<longrightarrow> HitCount e1 = int (Suc n)"
    "e1\<lparr>HitCount := 0, CurrentTTL := 0\<rparr> = e\<lparr>HitCount := 0, CurrentTTL := 0\<rparr>"
    by blast
  from Get_hit [OF 1(2)] obtain c'
    where g: "Get c1 items packSizes = (Some (bump_entry e1), c')"
      "holds c' (generateKey items packSizes) (bump_entry e1)" by blast
  have G: "Get_repeated (Suc (Suc n)) c items packSizes = (Some (bump_entry e1), c')"
    using 1(1) g(1) by simp
  note t = bump_ttl [OF 1(3)]
  have h: "int (Suc (Suc n)) \<le> 9223372036854775807 \<longrightarrow> HitCount (bump_entry e1) = int (Suc (Suc n))"
    using 1(4) by (auto simp: bump_entry_def add64_def wrap64_id is_int64_def)
  have "(bump_entry e1)\<lparr>HitCount := 0, CurrentTTL := 0\<rparr> = e\<lparr>HitCount := 0, CurrentTTL := 0\<rparr>"
    using 1(5) by (simp add: bump_entry_def)
  then show ?case using G g(2) t h by blast
qed

section \<open>The hashed string determines the request\<close>

lemma digit_char_dec:
  assumes "n < 10"
  shows "digit_char n \<in> set ''0123456789''" "(of_char (digit_char n) :: nat) = 48 + n"
proof -
  from assms have "n \<in> {0, 1, 2, 3, 4, 5, 6, 7, 8, 9}" by auto
  then show "digit_char n \<in> set ''0123456789''" "(of_char (digit_char n) :: nat) = 48 + n"
    by (auto simp: digit_char_def)
qed

lemma digits_chars: "set (digits n) \<subseteq> set ''0123456789'' \<and> digits n \<noteq> []"
proof (induction n rule: digits.induct)
  case (1 n)
  show ?case
  proof (cases "n < 10")
    case True
    then show ?thesis using digit_char_dec(1) [of n] by (simp add: digits.simps [of n])
  next
    case False
    have "n mod 10 < 10" by simp
    from digit_char_dec(1) [OF this] "1.IH" False
    show ?thesis by (simp add: digits.simps [of n])
  qed
qed

lemma digits_value: "foldl (\<lambda>a c. 10 * a + (of_char c - 48)) 0 (digits n) = n"
proof (induction n rule: digits.induct)
  case (1 n)
  show ?case
  proof (cases "n < 10")
    case True
    then show ?thesis using digit_char_dec(2) [of n] by (simp add: digits.simps [of n])
  next
    case False
    have "n mod 10 < 10" by simp
    from digit_char_dec(2) [OF this] "1.IH" False
    show ?thesis by (simp add: digits.simps [of n])
  qed
qed

lemma digits_inj:
  assumes "digits n = digits m"
  shows "n = m"
proof -
  have "n = foldl (\<lambda>a c. 10 * a + (of_char c - 48)) 0 (digits n)" by (simp add: digits_value)
  also have "\<dots> = foldl (\<lambda>a c. 10 * a + (of_char c - 48)) 0 (digits m)" using assms by simp
  also have "\<dots> = m" by (simp add: digits_value)
  finally show ?thesis .
qed

lemma fmt_d_chars: "set (fmt_d i) \<subseteq> set ''-0123456789'' \<and> fmt_d i \<noteq> []"
proof -
  have "set ''0123456789'' \<subseteq> set ''-0123456789''" by (simp add: subset_insertI2)
  then have d: "set (digits n) \<subseteq> set ''-0123456789''" for n
    using digits_chars [of n] by (meson subset_trans)
  have m: "CHR ''-'' \<in> set ''-0123456789''" by simp
  show ?thesis
  proof (cases "i < 0")
    case True
    then have "fmt_d i = CHR ''-'' # digits (nat (- i))" by (simp add: fmt_d_def)
    then show ?thesis using d [of "nat (- i)"] m by (simp del: set_simps add: set_simps(2) [of "CHR ''-''" "digits (nat (- i))"])
  next
    case False
    then have "fmt_d i = digits (nat i)" by (simp add: fmt_d_def)
    then show ?thesis using d [of "nat i"] digits_chars [of "nat i"] by simp
  qed
qed

lemma fmt_d_inj:
  assumes "fmt_d i = fmt_d j"
  shows "i = j"
proof -
  have nm: "digits n \<noteq> CHR ''-'' # s" for n s
  proof
    assume "digits n = CHR ''-'' # s"
    then have "CHR ''-'' \<in> set (digits n)" by simp
    moreover have "CHR ''-'' \<notin> set ''0123456789''" by simp
    ultimately show False using digits_chars [of n] by blast
  qed
  have neg: "fmt_d k = CHR ''-'' # digits (nat (- k))" if "k < 0" for k
    using that by (simp add: fmt_d_def)
  have pos: "fmt_d k = digits (nat k)" if "\<not> k < 0" for k
    using that by (simp add: fmt_d_def)
  show ?thesis
  proof (cases "i < 0")
    case True
    have j: "j < 0"
    proof (rule ccontr)
      assume "\<not> j < 0"
      then have "digits (nat j) = CHR ''-'' # digits (nat (- i))"
        using assms neg [OF True] pos [of j] by simp
      then show False using nm by blast
    qed
    have "digits (nat (- i)) = digits (nat (- j))"
      using assms neg [OF True] neg [OF j] by simp
    then have "nat (- i) = nat (- j)" by (rule digits_inj)
    then show ?thesis using True j by simp
  next
    case False
    have j: "\<not> j < 0"
    proof
      assume "j < 0"
      then have "digits (nat i) = CHR ''-'' # digits (nat (- j))"
        using assms neg [of j] pos [OF False] by simp
      then show False using nm by blast
    qed
    have "digits (nat i) = digits (nat j)"
      using assms pos [OF False] pos [OF j] by simp
    then have "nat i = nat j" by (rule digits_inj)
    then show ?thesis using False j by simp
  qed
qed

lemma split_at_sep:
  assumes "xs @ c # r = ys @ c # r'" "c \<notin> set xs" "c \<notin> set ys"
  shows "xs = ys \<and> r = r'"
  using assms
proof (induction xs arbitrary: ys)
  case Nil
  then show ?case by (cases ys) auto
next
  case (Cons x xs)
  then show ?case by (cases ys) auto
qed

lemma spaced_Cons: "spaced (s # rest) = (if rest = [] then s else s @ CHR '' '' # spaced rest)"
  by (cases rest) simp_all

lemma spaced_inj:
  assumes "\<forall>s \<in> set ss \<union> set ts. s \<noteq> [] \<and> CHR '' '' \<notin> set s" "spaced ss = spaced ts"
  shows "ss = ts"
  using assms
proof (induction ss arbitrary: ts)
  case Nil
  then show ?case by (cases ts) (auto simp: spaced_Cons split: if_splits)
next
  case (Cons s ss)
  show ?case
  proof (cases ts)
    case Nil
    then show ?thesis using Cons.prems by (auto simp: spaced_Cons split: if_splits)
  next
    case (Cons t ts')
    have c: "s \<noteq> []" "CHR '' '' \<notin> set s" "t \<noteq> []" "CHR '' '' \<notin> set t"
      using Cons.prems(1) Cons by auto
    have e: "(if ss = [] then s else s @ CHR '' '' # spaced ss) =
             (if ts' = [] then t else t @ CHR '' '' # spaced ts')"
      using Cons.prems(2) Cons by (simp add: spaced_Cons)
    show ?thesis
    proof (cases "ss = []")
      case True
      then have "ts' = []" using e c by (auto split: if_splits)
      then show ?thesis using e True Cons by simp
    next
      case False
      then have n: "ts' \<noteq> []" using e c by (auto split: if_splits)
      then have "s @ CHR '' '' # spaced ss = t @ CHR '' '' # spaced ts'" using e False by simp
      from split_at_sep [OF this c(2,4)] have st: "s = t" "spaced ss = spaced ts'" by simp_all
      have "ss = ts'" using Cons.IH [of ts'] Cons.prems(1) Cons st(2) by auto
      then show ?thesis using st(1) Cons by simp
    qed
  qed
qed

lemma fmt_v_inj:
  assumes "fmt_v xs = fmt_v ys"
  shows "xs = ys"
proof -
  have "spaced (map fmt_d xs) = spaced (map fmt_d ys)" using assms by (simp add: fmt_v_def)
  moreover have "\<forall>s \<in> set (map fmt_d xs) \<union> set (map fmt_d ys). s \<noteq> [] \<and> CHR '' '' \<notin> set s"
    using fmt_d_chars by auto
  ultimately have "map fmt_d xs = map fmt_d ys" by (rule spaced_inj [rotated])
  moreover have "inj fmt_d" by (rule injI) (rule fmt_d_inj)
  ultimately show ?thesis by (simp add: inj_map_eq_map)
qed

lemma key_data_inj:
  "key_data q xs = key_data q' ys \<longleftrightarrow> q = q' \<and> mset xs = mset ys"
proof
  assume "key_data q xs = key_data q' ys"
  then have e: "fmt_d q @ CHR '':'' # fmt_v (sort xs) = fmt_d q' @ CHR '':'' # fmt_v (sort ys)"
    by (simp add: key_data_def)
  have "CHR '':'' \<notin> set (fmt_d q)" "CHR '':'' \<notin> set (fmt_d q')"
    using fmt_d_chars [of q] fmt_d_chars [of q'] by auto
  from split_at_sep [OF e this] have "fmt_d q = fmt_d q'" "fmt_v (sort xs) = fmt_v (sort ys)"
    by simp_all
  then have "q = q'" "sort xs = sort ys" using fmt_d_inj fmt_v_inj by blast+
  then show "q = q' \<and> mset xs = mset ys" by (metis mset_sort)
next
  assume "q = q' \<and> mset xs = mset ys"
  then show "key_data q xs = key_data q' ys"
    using sort_mset_eq [of xs ys] by (simp add: key_data_def)
qed

section \<open>Rounding to \<open>float64\<close>\<close>

text \<open>
  \<open>floor_log2\<close> is the binary exponent. Rounding moves a number by at most the fraction
  \<open>2^-53\<close> of its size; the hit rate, four roundings after the exact quotient, is within
  the fraction \<open>2^-50\<close> of the exact percentage.
\<close>

lemma pow2_powi: "pow2 k = 2 powi k"
  by (simp add: pow2_def power_int_def power_inverse [symmetric] inverse_eq_divide power_one_over)

lemma pow2_pos: "0 < pow2 k"
  by (simp add: pow2_powi)

lemma floor_log2_le:
  assumes "0 < x"
  shows "pow2 (floor_log2 x) \<le> x"
proof -
  obtain a b where q: "quotient_of x = (a, b)" by (cases "quotient_of x") auto
  have b: "0 < b" using quotient_of_denom_pos [OF q] .
  have x: "x = of_int a / of_int b" using quotient_of_div [OF q] .
  have a: "0 < a" using assms b unfolding x by (simp add: zero_less_divide_iff)
  define d where "d = bitlen a - bitlen b"
  have fl: "floor_log2 x = (if pow2 d \<le> x then d else d - 1)"
    by (simp add: floor_log2_def q d_def Let_def)
  show ?thesis
  proof (cases "pow2 d \<le> x")
    case True
    then show ?thesis by (simp add: fl)
  next
    case False
    have la: "1 \<le> bitlen a" using a bitlen_eq_zero_iff [of a] bitlen_nonneg [of a] by linarith
    have lb: "0 \<le> bitlen b" by (rule bitlen_nonneg)
    have "(2::int) ^ nat (bitlen a - 1) \<le> a" using bitlen_bounds [OF a] by simp
    then have "rat_of_int (2 ^ nat (bitlen a - 1)) \<le> rat_of_int a" by (simp only: of_int_le_iff)
    then have A: "(2::rat) powi (bitlen a - 1) \<le> of_int a"
      using la by (simp add: power_int_def)
    have "b < (2::int) ^ nat (bitlen b)" using bitlen_bounds [OF b] by simp
    then have "rat_of_int b < rat_of_int (2 ^ nat (bitlen b))" by (simp only: of_int_less_iff)
    then have B: "of_int b \<le> (2::rat) powi (bitlen b)"
      using lb by (simp add: power_int_def)
    have "(2::rat) powi (bitlen a - 1) / 2 powi (bitlen b) \<le> of_int a / of_int b"
      using A B a b by (intro frac_le) simp_all
    moreover have "(2::rat) powi (bitlen a - 1) / 2 powi (bitlen b) = 2 powi (d - 1)"
      by (simp add: d_def power_int_diff)
    ultimately have "pow2 (d - 1) \<le> x" unfolding x pow2_powi by simp
    moreover have "floor_log2 x = d - 1" using False by (simp add: fl)
    ultimately show ?thesis by simp
  qed
qed

lemma floor_log2_less:
  assumes "0 < x"
  shows "x < pow2 (floor_log2 x + 1)"
proof -
  obtain a b where q: "quotient_of x = (a, b)" by (cases "quotient_of x") auto
  have b: "0 < b" using quotient_of_denom_pos [OF q] .
  have x: "x = of_int a / of_int b" using quotient_of_div [OF q] .
  have a: "0 < a" using assms b unfolding x by (simp add: zero_less_divide_iff)
  define d where "d = bitlen a - bitlen b"
  have fl: "floor_log2 x = (if pow2 d \<le> x then d else d - 1)"
    by (simp add: floor_log2_def q d_def Let_def)
  show ?thesis
  proof (cases "pow2 d \<le> x")
    case False
    then show ?thesis by (simp add: fl)
  next
    case True
    have la: "0 \<le> bitlen a" by (rule bitlen_nonneg)
    have lb: "1 \<le> bitlen b" using b bitlen_eq_zero_iff [of b] bitlen_nonneg [of b] by linarith
    have "a < (2::int) ^ nat (bitlen a)" using bitlen_bounds [OF a] by simp
    then have "rat_of_int a < rat_of_int (2 ^ nat (bitlen a))" by (simp only: of_int_less_iff)
    then have A: "of_int a < (2::rat) powi (bitlen a)"
      using la by (simp add: power_int_def)
    have "(2::int) ^ nat (bitlen b - 1) \<le> b" using bitlen_bounds [OF b] by simp
    then have "rat_of_int (2 ^ nat (bitlen b - 1)) \<le> rat_of_int b" by (simp only: of_int_le_iff)
    then have B: "(2::rat) powi (bitlen b - 1) \<le> of_int b"
      using lb by (simp add: power_int_def)
    have "of_int a / of_int b < (2::rat) powi (bitlen a) / 2 powi (bitlen b - 1)"
      using A B a by (intro frac_less) simp_all
    moreover have "(2::rat) powi (bitlen a) / 2 powi (bitlen b - 1) = 2 powi (d + 1)"
      by (simp add: d_def power_int_diff [symmetric] algebra_simps)
    ultimately have "x < pow2 (d + 1)" unfolding x pow2_powi by simp
    moreover have "floor_log2 x = d" using True by (simp add: fl)
    ultimately show ?thesis by simp
  qed
qed

lemma round_half_even_near: "\<bar>of_int (round_half_even y) - y\<bar> \<le> 1 / 2"
proof -
  have "of_int \<lfloor>y\<rfloor> \<le> y" "y < of_int \<lfloor>y\<rfloor> + 1" by linarith+
  then show ?thesis by (auto simp: round_half_even_def Let_def)
qed

lemma f64_round_near:
  assumes "x \<noteq> 0"
  shows "\<bar>f64_round x - x\<bar> \<le> \<bar>x\<bar> / 2 ^ 53"
proof -
  define e where "e = floor_log2 \<bar>x\<bar>"
  define ulp where "ulp = pow2 (e - 52)"
  define k where "k = round_half_even (\<bar>x\<bar> / ulp)"
  have up: "0 < ulp" by (simp add: ulp_def pow2_pos)
  have fx: "f64_round x = sgn x * of_int k * ulp"
    using assms by (simp add: f64_round_def Let_def e_def ulp_def k_def)
  have "f64_round x - x = sgn x * (of_int k * ulp - \<bar>x\<bar>)"
    unfolding fx by (simp add: algebra_simps abs_mult_sgn mult_sgn_abs)
  then have "\<bar>f64_round x - x\<bar> = \<bar>of_int k * ulp - \<bar>x\<bar>\<bar>"
    using assms by (simp add: abs_mult abs_sgn_eq)
  also have "of_int k * ulp - \<bar>x\<bar> = (of_int k - \<bar>x\<bar> / ulp) * ulp"
    using up by (simp add: field_simps)
  also have "\<bar>\<dots>\<bar> = \<bar>of_int k - \<bar>x\<bar> / ulp\<bar> * ulp"
    using up by (simp add: abs_mult)
  also have "\<dots> \<le> 1 / 2 * ulp"
    using round_half_even_near [of "\<bar>x\<bar> / ulp"] up unfolding k_def
    by (intro mult_right_mono) simp_all
  also have "1 / 2 * ulp = pow2 e / 2 ^ 53"
    by (simp add: ulp_def pow2_powi power_int_diff)
  also have "\<dots> \<le> \<bar>x\<bar> / 2 ^ 53"
    using floor_log2_le [of "\<bar>x\<bar>"] assms unfolding e_def
    by (intro divide_right_mono) simp_all
  finally show ?thesis .
qed

text \<open>
  The rounded value is a \<open>float64\<close>: a significand of at most 53 bits times a power of
  two.
\<close>

lemma f64_round_significand:
  assumes "x \<noteq> 0"
  shows "\<exists>n e. f64_round x = sgn x * of_int n * pow2 e \<and> 2 ^ 52 \<le> n \<and> n \<le> 2 ^ 53"
proof -
  define e where "e = floor_log2 \<bar>x\<bar>"
  define ulp where "ulp = pow2 (e - 52)"
  define k where "k = round_half_even (\<bar>x\<bar> / ulp)"
  have up: "0 < ulp" by (simp add: ulp_def pow2_pos)
  have fx: "f64_round x = sgn x * of_int k * ulp"
    using assms by (simp add: f64_round_def Let_def e_def ulp_def k_def)
  have ax: "0 < \<bar>x\<bar>" using assms by simp
  have lo: "pow2 e \<le> \<bar>x\<bar>" unfolding e_def by (rule floor_log2_le [OF ax])
  have hi: "\<bar>x\<bar> < pow2 (e + 1)" unfolding e_def by (rule floor_log2_less [OF ax])
  have "pow2 e / ulp \<le> \<bar>x\<bar> / ulp" using lo up by (intro divide_right_mono) simp_all
  moreover have "pow2 e / ulp = 2 ^ 52"
    by (simp add: ulp_def pow2_powi power_int_diff)
  ultimately have y1: "2 ^ 52 \<le> \<bar>x\<bar> / ulp" by simp
  have "\<bar>x\<bar> / ulp < pow2 (e + 1) / ulp" using hi up by (intro divide_strict_right_mono) simp_all
  moreover have "pow2 (e + 1) / ulp = 2 ^ 53"
    by (simp add: ulp_def pow2_powi power_int_diff power_int_add)
  ultimately have y2: "\<bar>x\<bar> / ulp < 2 ^ 53" by simp
  define y where "y = \<bar>x\<bar> / ulp"
  have near: "\<bar>rat_of_int k - y\<bar> \<le> 1 / 2"
    unfolding k_def y_def by (rule round_half_even_near)
  have y1': "4503599627370496 \<le> y" using y1 by (simp add: y_def)
  have y2': "y < 9007199254740992" using y2 by (simp add: y_def)
  have "rat_of_int 4503599627370495 < rat_of_int k" using near y1' by (simp only: abs_le_iff) simp
  then have "4503599627370495 < k" by (simp only: of_int_less_iff)
  then have k1: "2 ^ 52 \<le> k" by simp
  have "rat_of_int k < rat_of_int 9007199254740993" using near y2' by (simp only: abs_le_iff) simp
  then have "k < 9007199254740993" by (simp only: of_int_less_iff)
  then have k2: "k \<le> 2 ^ 53" by simp
  show ?thesis using fx k1 k2 unfolding ulp_def by blast
qed

lemma f64_round_bounds:
  assumes "0 \<le> x"
  shows "x * (1 - 1 / 2 ^ 53) \<le> f64_round x" "f64_round x \<le> x * (1 + 1 / 2 ^ 53)"
proof -
  have "x * (1 - 1 / 2 ^ 53) \<le> f64_round x \<and> f64_round x \<le> x * (1 + 1 / 2 ^ 53)"
  proof (cases "x = 0")
    case True
    then show ?thesis by (simp add: f64_round_def)
  next
    case False
    from f64_round_near [OF False] assms
    have n: "\<bar>f64_round x - x\<bar> \<le> x / 2 ^ 53" by simp
    define y where "y = x / 2 ^ 53"
    have "f64_round x - x \<le> y" "- (f64_round x - x) \<le> y"
      using n unfolding y_def by (simp_all only: abs_le_iff)
    moreover have "x * (1 - 1 / 2 ^ 53) = x - y" "x * (1 + 1 / 2 ^ 53) = x + y"
      unfolding y_def by (simp_all only: algebra_simps mult_1_right times_divide_eq_right)
    ultimately show ?thesis by (simp only:) linarith
  qed
  then show "x * (1 - 1 / 2 ^ 53) \<le> f64_round x" "f64_round x \<le> x * (1 + 1 / 2 ^ 53)"
    by simp_all
qed


lemma rate_bounds:
  fixes h t a b q p u :: rat
  assumes u: "0 < u" "u < 1" and h: "0 \<le> h" and t: "0 < t"
    and a: "h * (1 - u) \<le> a" "a \<le> h * (1 + u)"
    and b: "t * (1 - u) \<le> b" "b \<le> t * (1 + u)"
    and q: "a / b * (1 - u) \<le> q" "q \<le> a / b * (1 + u)"
    and p: "q * 100 * (1 - u) \<le> p" "p \<le> q * 100 * (1 + u)"
  shows "100 * h / t * ((1 - u) ^ 3 / (1 + u)) \<le> p"
    and "p \<le> 100 * h / t * ((1 + u) ^ 3 / (1 - u))"
proof -
  have um: "0 < 1 - u" "0 < 1 + u" using u by simp_all
  have "0 \<le> h * (1 - u)" using h um by simp
  then have a0: "0 \<le> a" using a(1) by simp
  have tl: "0 < t * (1 - u)" using t um by simp
  then have b0: "0 < b" using b(1) by simp
  have hu: "0 \<le> h * (1 + u)" using h um by simp
  have q1: "a / b \<le> h * (1 + u) / (t * (1 - u))"
    using hu a(2) tl b(1) by (rule frac_le)
  have q2: "h * (1 - u) / (t * (1 + u)) \<le> a / b"
    using a0 a(1) b0 b(2) by (rule frac_le)
  have lo0: "0 \<le> h * (1 - u) / (t * (1 + u))" using h t um by simp
  have "a / b * (1 + u) \<le> h * (1 + u) / (t * (1 - u)) * (1 + u)"
    using q1 um by (intro mult_right_mono) simp_all
  then have qu: "q \<le> h * (1 + u) / (t * (1 - u)) * (1 + u)" using q(2) by simp
  have "h * (1 - u) / (t * (1 + u)) * (1 - u) \<le> a / b * (1 - u)"
    using q2 um by (intro mult_right_mono) simp_all
  then have ql: "h * (1 - u) / (t * (1 + u)) * (1 - u) \<le> q" using q(1) by simp
  have "q * 100 * (1 + u) \<le> h * (1 + u) / (t * (1 - u)) * (1 + u) * 100 * (1 + u)"
    using qu um by (intro mult_right_mono) simp_all
  then have pu: "p \<le> h * (1 + u) / (t * (1 - u)) * (1 + u) * 100 * (1 + u)"
    using p(2) by simp
  have "h * (1 - u) / (t * (1 + u)) * (1 - u) * 100 * (1 - u) \<le> q * 100 * (1 - u)"
    using ql um by (intro mult_right_mono) simp_all
  then have pl: "h * (1 - u) / (t * (1 + u)) * (1 - u) * 100 * (1 - u) \<le> p"
    using p(1) by simp
  have e1: "h * (1 + u) / (t * (1 - u)) * (1 + u) * 100 * (1 + u) =
        100 * h / t * ((1 + u) ^ 3 / (1 - u))"
    by (simp add: power3_eq_cube)
  show "p \<le> 100 * h / t * ((1 + u) ^ 3 / (1 - u))" using pu unfolding e1 .
  have e2: "h * (1 - u) / (t * (1 + u)) * (1 - u) * 100 * (1 - u) =
        100 * h / t * ((1 - u) ^ 3 / (1 + u))"
    by (simp add: power3_eq_cube)
  show "100 * h / t * ((1 - u) ^ 3 / (1 + u)) \<le> p" using pl unfolding e2 .
qed

lemma f64_rate_error:
  assumes h: "0 \<le> h" and t: "0 < t"
  shows "\<bar>f64_mul (f64_div (f64_of_int h) (f64_of_int t)) 100 - 100 * of_int h / of_int t\<bar>
           \<le> 100 * of_int h / of_int t / 2 ^ 50"
proof -
  define u :: rat where "u = 1 / 2 ^ 53"
  define a where "a = f64_of_int h"
  define b where "b = f64_of_int t"
  define q where "q = f64_div a b"
  define p where "p = f64_mul q 100"
  define R :: rat where "R = 100 * of_int h / of_int t"
  have u: "0 < u" "u < 1" by (simp_all add: u_def)
  have h': "0 \<le> rat_of_int h" and t': "0 < rat_of_int t" using h t by simp_all
  have A: "of_int h * (1 - u) \<le> a" "a \<le> of_int h * (1 + u)"
    unfolding a_def f64_of_int_def u_def using f64_round_bounds [OF h'] by simp_all
  have B: "of_int t * (1 - u) \<le> b" "b \<le> of_int t * (1 + u)"
    unfolding b_def f64_of_int_def u_def using f64_round_bounds [of "of_int t"] t' by simp_all
  have "0 \<le> rat_of_int h * (1 - u)" using h' u by simp
  then have a0: "0 \<le> a" using A(1) by simp
  have "0 < rat_of_int t * (1 - u)" using t' u by simp
  then have b0: "0 < b" using B(1) by simp
  have ab: "0 \<le> a / b" using a0 b0 by simp
  have Q: "a / b * (1 - u) \<le> q" "q \<le> a / b * (1 + u)"
    unfolding q_def f64_div_def u_def using f64_round_bounds [OF ab] by simp_all
  have "0 \<le> a / b * (1 - u)" using ab u by (intro mult_nonneg_nonneg) simp_all
  then have "0 \<le> q" using Q(1) by simp
  then have q0: "0 \<le> q * 100" by simp
  have P: "q * 100 * (1 - u) \<le> p" "p \<le> q * 100 * (1 + u)"
    unfolding p_def f64_mul_def u_def using f64_round_bounds [OF q0] by simp_all
  note rb = rate_bounds [OF u h' t' A B Q P]
  have R0: "0 \<le> R" using h' t' by (simp add: R_def)
  have c1: "(1 + u) ^ 3 / (1 - u) \<le> 1 + 1 / 2 ^ 50" by (simp add: u_def power3_eq_cube)
  have c2: "1 - 1 / 2 ^ 50 \<le> (1 - u) ^ 3 / (1 + u)" by (simp add: u_def power3_eq_cube)
  have "p \<le> R * ((1 + u) ^ 3 / (1 - u))" using rb(2) by (simp only: R_def)
  also have "\<dots> \<le> R * (1 + 1 / 2 ^ 50)" using c1 R0 by (rule mult_left_mono)
  finally have up: "p \<le> R * (1 + 1 / 2 ^ 50)" .
  have "R * (1 - 1 / 2 ^ 50) \<le> R * ((1 - u) ^ 3 / (1 + u))" using c2 R0 by (rule mult_left_mono)
  also have "\<dots> \<le> p" using rb(1) by (simp only: R_def)
  finally have lo: "R * (1 - 1 / 2 ^ 50) \<le> p" .
  define y where "y = R / 2 ^ 50"
  have "R * (1 - 1 / 2 ^ 50) = R - y" "R * (1 + 1 / 2 ^ 50) = R + y"
    unfolding y_def by (simp_all only: algebra_simps mult_1_right times_divide_eq_right)
  then have "R - y \<le> p" "p \<le> R + y" using lo up by simp_all
  then have "\<bar>p - R\<bar> \<le> y" by (simp only: abs_le_iff) linarith
  then show ?thesis by (simp only: p_def q_def a_def b_def R_def y_def)
qed

section \<open>The model on inputs of the test suites\<close>

text \<open>
  The digest of \<open>abc\<close> from FIPS 180-4, and three cases of the optimizer's tests: rule
  priority, overfill and the tie-break on packs.
\<close>

lemma sha256_abc:
  "fmt_x (sha256 (bytes_of_string ''abc'')) =
     ''ba7816bf8f01cfea414140de5dae2223b00361a396177a9cb410ff61f20015ad''"
  by code_simp

text \<open>
  The hit rate of the README (9500 hits, 500 misses) and of the cache tests, and two
  quotients that \<open>float64\<close> rounds: 7 hits in 25 requests give
  \<open>28.000000000000004\<close>.
\<close>

lemma f64_one_of_two:
  "f64_mul (f64_div (f64_of_int 1) (f64_of_int 2)) 100 = 50"
  by code_simp

lemma f64_examples:
  "f64_mul (f64_div (f64_of_int 9500) (f64_of_int 10000)) 100 = 95"
  "f64_mul (f64_div (f64_of_int 19) (f64_of_int 20)) 100 = 95"
  "f64_mul (f64_div (f64_of_int 7) (f64_of_int 25)) 100 = 7881299347898369 / 281474976710656"
  "f64_mul (f64_div (f64_of_int 1) (f64_of_int 3)) 100 = 2345624805922133 / 70368744177664"
  "f64_of_int 9223372036854775807 = 9223372036854775808"
  by code_simp+

lemmas Calculate_eval =
  Calculate_def Let_def add64_def sub64_def wrap64_def make_slice_def maxAlloc_def store_def
  index_def relax_def MaxInt32_def fill_table.simps find_best.simps backtrack.simps
  incr_def nat_numeral_diff_1 numeral_eq_Suc

lemma Calculate_rule_priority:
  "Calculate 10 [3, 5] =
     Some (Inr \<lparr>PackCounts = [5 \<mapsto> 2], TotalItems = 10, TotalPacks = 2, Waste = 0\<rparr>)"
  by (simp add: Calculate_eval)

lemma Calculate_overfill:
  "Calculate 4 [3, 5] =
     Some (Inr \<lparr>PackCounts = [5 \<mapsto> 1], TotalItems = 5, TotalPacks = 1, Waste = 1\<rparr>)"
  by (simp add: Calculate_eval)

lemma Calculate_tie_break:
  "Calculate 6 [1, 2, 3] =
     Some (Inr \<lparr>PackCounts = [3 \<mapsto> 2], TotalItems = 6, TotalPacks = 2, Waste = 0\<rparr>)"
  by (simp add: Calculate_eval)

section \<open>Degenerate requests and validation\<close>

text \<open>
  Claim C8. For every pack-size list and every order quantity that is zero or negative,
  and for every order quantity when the pack-size list is empty, \<open>Calculate\<close> returns
  normally (no panic, no divergence) the empty result: no pack-count entry, and
  \<open>TotalItems\<close>, \<open>TotalPacks\<close> and \<open>Waste\<close> all 0.
\<close>

theorem Calculate_degenerate:
  assumes "order \<le> 0 \<or> packSizes = []"
  shows "Calculate order packSizes =
           Some (Inr \<lparr>PackCounts = Map.empty, TotalItems = 0, TotalPacks = 0, Waste = 0\<rparr>)"
  using assms by (auto simp: Calculate_def empty_result_def)

theorem Calculate_degenerate_witness:
  "Calculate (- 5) [3, 5] =
     Some (Inr \<lparr>PackCounts = Map.empty, TotalItems = 0, TotalPacks = 0, Waste = 0\<rparr>)
   \<and> Calculate 7 [] =
     Some (Inr \<lparr>PackCounts = Map.empty, TotalItems = 0, TotalPacks = 0, Waste = 0\<rparr>)"
  using Calculate_degenerate [of "- 5" "[3, 5]"] Calculate_degenerate [of 7 "[]"] by simp

lemma all_positive_iff: "all_positive packSizes \<longleftrightarrow> (\<forall>sz \<in> set packSizes. 0 < sz)"
  by (induction packSizes) auto

text \<open>
  Claim C10. \<open>Validate\<close> returns true exactly when the list is non-empty and every
  element is strictly positive. Nothing else is checked: the sizes 2 and 4, whose
  greatest common divisor is 2, are accepted.
\<close>

theorem Validate_iff:
  "(Validate packSizes \<longleftrightarrow> packSizes \<noteq> [] \<and> (\<forall>sz \<in> set packSizes. 0 < sz))
   \<and> Validate [2, 4]"
  by (simp add: Validate_def all_positive_iff)

theorem Validate_iff_witness:
  "Validate [250, 500, 1000] \<and> \<not> Validate [0, 250, 500] \<and> \<not> Validate []"
  using Validate_iff [of "[250, 500, 1000]"] Validate_iff [of "[0, 250, 500]"]
    Validate_iff [of "[]"]
  by simp

section \<open>Consistency of the returned totals\<close>

text \<open>
  Claim C3. Whatever the input (any order quantity and any pack sizes that are Go
  \<open>int\<close> values), a result returned by \<open>Calculate\<close> is internally consistent: the sum
  of size times count over the entries of \<open>PackCounts\<close> equals \<open>TotalItems\<close>, and the
  sum of the counts equals \<open>TotalPacks\<close>. For a non-empty result this says that the
  walk back from \<open>bestItems\<close> collects exactly \<open>dp[bestItems]\<close> packs that add up to
  \<open>bestItems\<close>.
\<close>

theorem Calculate_sum_consistency:
  assumes "Calculate order packSizes = Some (Inr r)"
    and "is_int64 order" and "\<forall>sz \<in> set packSizes. is_int64 sz"
  shows "total_items (PackCounts r) = TotalItems r \<and> total_packs (PackCounts r) = TotalPacks r"
  using Calculate_Inr_cases [OF assms]
  by (auto simp: empty_result_def total_items_def total_packs_def)

theorem Calculate_sum_consistency_witness:
  "Calculate 10 [3, 5] =
     Some (Inr \<lparr>PackCounts = [5 \<mapsto> 2], TotalItems = 10, TotalPacks = 2, Waste = 0\<rparr>)
   \<and> total_items [5 \<mapsto> 2] = 10 \<and> total_packs [5 \<mapsto> 2] = 2"
proof -
  have run: "Calculate 10 [3, 5] =
     Some (Inr \<lparr>PackCounts = [5 \<mapsto> 2], TotalItems = 10, TotalPacks = 2, Waste = 0\<rparr>)"
    by (rule Calculate_rule_priority)
  show ?thesis
    using Calculate_sum_consistency [OF run] run by (simp add: is_int64_def)
qed

section \<open>Termination and absence of panics\<close>

text \<open>
  Claim C9, as the specification states it, promises that no panic is reachable for any
  order quantity and any non-empty list of positive sizes. With one pack of the largest
  \<open>int\<close> size the sum \<open>order + maxSize\<close> wraps around to a negative \<open>limit\<close>, and
  \<open>make([]int, limit+1)\<close> panics. It also panics without any wrap-around, as soon as
  \<open>limit + 1\<close> exceeds the longest slice the runtime accepts: for one pack of size
  \<open>2^45\<close>, and for one pack of size \<open>2^63 - 3\<close>.
\<close>

theorem Calculate_panics_on_overflow:
  "Calculate 1 [9223372036854775807] = Some (Inl MakeSliceLenOutOfRange)
   \<and> Calculate 1 [35184372088832] = Some (Inl MakeSliceLenOutOfRange)
   \<and> Calculate 1 [9223372036854775805] = Some (Inl MakeSliceLenOutOfRange)"
  by (simp add: Calculate_def add64_def wrap64_def make_slice_def maxAlloc_def)

text \<open>
  Claim C9, amended. Take a non-empty list of strictly positive pack sizes. For every
  order quantity that is zero or negative, or such that \<open>order + maxSize + 1\<close> is at most
  \<open>2^45\<close> (the two tables have a length \<open>make\<close> accepts, and no sum wraps around),
  \<open>Calculate\<close> terminates and returns a result: every read and write of \<open>dp\<close> and
  \<open>parent\<close>, in the fill loop, the scan and the walk back, is within bounds, and the walk
  back ends. For every other order quantity, the values being 64-bit integers, the first
  \<open>make\<close> panics. The machine running out of memory is not part of the model.
\<close>

theorem Calculate_total:
  assumes "packSizes \<noteq> []" and "\<forall>sz \<in> set packSizes. 0 < sz"
  shows "(order \<le> 0 \<or> order + Max (set packSizes) \<le> 35184372088831 \<longrightarrow>
            (\<exists>r. Calculate order packSizes = Some (Inr r)))
         \<and> (0 < order \<and> 35184372088831 < order + Max (set packSizes) \<and>
            is_int64 order \<and> (\<forall>sz \<in> set packSizes. is_int64 sz) \<longrightarrow>
            Calculate order packSizes = Some (Inl MakeSliceLenOutOfRange))"
proof (intro conjI impI)
  assume b: "order \<le> 0 \<or> order + Max (set packSizes) \<le> 35184372088831"
  show "\<exists>r. Calculate order packSizes = Some (Inr r)"
  proof (cases "0 < order")
    case True
    then show ?thesis using assms b by (intro Calculate_returns) simp_all
  next
    case False
    then show ?thesis by (simp add: Calculate_def)
  qed
next
  assume "0 < order \<and> 35184372088831 < order + Max (set packSizes) \<and>
            is_int64 order \<and> (\<forall>sz \<in> set packSizes. is_int64 sz)"
  then show "Calculate order packSizes = Some (Inl MakeSliceLenOutOfRange)"
    using assms by (intro Calculate_len_out_of_range) simp_all
qed

theorem Calculate_total_witness:
  "(\<exists>r. Calculate 500000 [23, 31, 53] = Some (Inr r))
   \<and> (\<exists>r. Calculate 0 [9223372036854775807] = Some (Inr r))
   \<and> Calculate 1 [35184372088831] = Some (Inl MakeSliceLenOutOfRange)"
  using Calculate_total [of "[23, 31, 53]" 500000]
    Calculate_total [of "[9223372036854775807]" 0]
    Calculate_total [of "[35184372088831]" 1]
  by (simp add: is_int64_def)

section \<open>Feasibility and optimality\<close>

lemma few_packs_small:
  fixes ps :: "int list"
  assumes o: "0 < order" "order \<le> 2147483646" and ne: "ps \<noteq> []"
    and pos: "\<forall>s \<in> set ps. 0 < s"
  shows "\<exists>q0. set q0 \<subseteq> set ps \<and> order \<le> sum_list q0 \<and>
           sum_list q0 \<le> order + Max (set ps) \<and> int (length q0) < MaxInt32"
proof -
  obtain s0 where s0: "s0 \<in> set ps" using ne by (cases ps) auto
  have "1 \<le> s0" using pos s0 by fastforce
  then have c: "order \<le> sum_list (replicate (nat order) s0)"
    using o(1) by (simp add: sum_list_replicate mult_le_cancel_left1)
  have cs: "set (replicate (nat order) s0) \<subseteq> set ps" using s0 by auto
  from tight_cover [OF pos _ o(1) cs c]
  obtain qs' where "set qs' \<subseteq> set ps" "order \<le> sum_list qs'"
    "sum_list qs' < order + Max (set ps)" "int (length qs') \<le> order"
    by auto
  then show ?thesis using o(2) by (intro exI [of _ qs']) (simp add: MaxInt32_def)
qed

lemma list_of_mset:
  fixes M :: "int multiset"
  shows "\<exists>q. set q = set_mset M \<and> sum_list q = sum_mset M \<and> length q = size M"
proof -
  obtain q where q: "mset q = M" using ex_mset by blast
  have "set q = set_mset M" using q by auto
  moreover have "sum_list q = sum_mset M" using q by (metis sum_mset_sum_list)
  moreover have "length q = size M" using q by auto
  ultimately show ?thesis by blast
qed

text \<open>
  Claim C2, as the specification states it, promises a non-empty result for every
  positive order quantity. The table marks "impossible" with \<open>MaxInt32\<close>, so a total
  that needs \<open>2^31 - 1\<close> packs or more is taken for impossible: for the single size 1
  and the order quantity \<open>2^31 - 1\<close> no total in the scanned range is found and the
  empty result comes back.
\<close>

theorem Calculate_empty_at_sentinel:
  "Calculate 2147483647 [1] =
     Some (Inr \<lparr>PackCounts = Map.empty, TotalItems = 0, TotalPacks = 0, Waste = 0\<rparr>)"
  using Calculate_ones_beyond_sentinel [of 2147483647] by (simp add: empty_result_def)

text \<open>
  Claim C2, amended. Take a positive order quantity and a non-empty list of strictly
  positive pack sizes with \<open>order + maxSize + 1\<close> at most \<open>2^45\<close> (the length of the
  tables is one \<open>make\<close> accepts), and let the order quantity be at most \<open>2^31 - 2\<close> or,
  failing that, let some total between \<open>order\<close> and \<open>order + maxSize\<close> be the sum of
  fewer than \<open>2^31 - 1\<close> packs of the given sizes. Then \<open>Calculate\<close> returns a result that
  is not the empty one: \<open>PackCounts\<close> holds positive counts of given sizes, the packs it
  counts add up to \<open>TotalItems\<close> and their number is \<open>TotalPacks\<close>, \<open>TotalItems\<close> lies in
  the scanned range from \<open>order\<close> to \<open>order + maxSize\<close>, and
  \<open>Waste = TotalItems - order\<close> is not negative.
\<close>

theorem Calculate_feasible:
  assumes "0 < order" and "packSizes \<noteq> []"
    and "\<forall>sz \<in> set packSizes. 0 < sz"
    and "order + Max (set packSizes) \<le> 35184372088831"
    and "order \<le> 2147483646 \<or>
         (\<exists>M. set_mset M \<subseteq> set packSizes \<and> order \<le> sum_mset M \<and>
              sum_mset M \<le> order + Max (set packSizes) \<and> int (size M) < 2147483647)"
  shows "\<exists>r. Calculate order packSizes = Some (Inr r) \<and> r \<noteq> empty_result \<and>
           order \<le> TotalItems r \<and> TotalItems r \<le> order + Max (set packSizes) \<and>
           Waste r = TotalItems r - order \<and> 0 \<le> Waste r \<and>
           dom (PackCounts r) \<subseteq> set packSizes \<and>
           (\<forall>sz \<in> dom (PackCounts r). 0 < the (PackCounts r sz)) \<and>
           total_items (PackCounts r) = TotalItems r \<and>
           total_packs (PackCounts r) = TotalPacks r"
proof -
  have "\<exists>q0. set q0 \<subseteq> set packSizes \<and> order \<le> sum_list q0 \<and>
           sum_list q0 \<le> order + Max (set packSizes) \<and> int (length q0) < MaxInt32"
    using assms(5)
  proof
    assume "order \<le> 2147483646"
    then show ?thesis using few_packs_small [OF assms(1) _ assms(2,3)] by simp
  next
    assume "\<exists>M. set_mset M \<subseteq> set packSizes \<and> order \<le> sum_mset M \<and>
              sum_mset M \<le> order + Max (set packSizes) \<and> int (size M) < 2147483647"
    then obtain M where M: "set_mset M \<subseteq> set packSizes" "order \<le> sum_mset M"
      "sum_mset M \<le> order + Max (set packSizes)" "int (size M) < 2147483647"
      by blast
    from list_of_mset [of M]
    obtain q where "set q = set_mset M" "sum_list q = sum_mset M" "length q = size M"
      by blast
    then show ?thesis using M by (intro exI [of _ q]) (simp add: MaxInt32_def)
  qed
  then obtain q0 where q0: "set q0 \<subseteq> set packSizes" "order \<le> sum_list q0"
    "sum_list q0 \<le> order + Max (set packSizes)" "int (length q0) < MaxInt32"
    by blast
  from Calculate_found [OF assms(1-4) q0]
  obtain r where r: "Calculate order packSizes = Some (Inr r)" "order \<le> TotalItems r"
    "TotalItems r \<le> sum_list q0" "Waste r = TotalItems r - order"
    "dom (PackCounts r) \<subseteq> set packSizes"
    "\<forall>sz \<in> dom (PackCounts r). 0 < the (PackCounts r sz)"
    "total_items (PackCounts r) = TotalItems r" "total_packs (PackCounts r) = TotalPacks r"
    by blast
  have "r \<noteq> empty_result" using r(2) assms(1) by (auto simp: empty_result_def)
  moreover have "TotalItems r \<le> order + Max (set packSizes)" using r(3) q0(3) by simp
  ultimately show ?thesis using r by (intro exI [of _ r]) simp
qed

theorem Calculate_feasible_witness:
  "Calculate 4 [3, 5] =
     Some (Inr \<lparr>PackCounts = [5 \<mapsto> 1], TotalItems = 5, TotalPacks = 1, Waste = 1\<rparr>)
   \<and> total_items [5 \<mapsto> 1] = 5 \<and> total_packs [5 \<mapsto> 1] = 1
   \<and> (\<exists>r. Calculate 3000000000 [1000000000] = Some (Inr r) \<and> r \<noteq> empty_result \<and>
          3000000000 \<le> TotalItems r \<and> TotalItems r \<le> 4000000000 \<and>
          total_items (PackCounts r) = TotalItems r)"
proof -
  have run: "Calculate 4 [3, 5] =
     Some (Inr \<lparr>PackCounts = [5 \<mapsto> 1], TotalItems = 5, TotalPacks = 1, Waste = 1\<rparr>)"
    by (rule Calculate_overfill)
  from Calculate_feasible [of 4 "[3, 5]"]
  obtain r where r: "Calculate 4 [3, 5] = Some (Inr r)"
    "total_items (PackCounts r) = TotalItems r" "total_packs (PackCounts r) = TotalPacks r"
    by auto
  have a: "total_items [5 \<mapsto> 1] = 5 \<and> total_packs [5 \<mapsto> 1] = 1" using r run by auto
  have "set_mset {#1000000000, 1000000000, 1000000000 :: int#} \<subseteq> set [1000000000] \<and>
        3000000000 \<le> sum_mset {#1000000000, 1000000000, 1000000000 :: int#} \<and>
        sum_mset {#1000000000, 1000000000, 1000000000 :: int#}
          \<le> 3000000000 + Max (set [1000000000]) \<and>
        int (size {#1000000000, 1000000000, 1000000000 :: int#}) < 2147483647"
    by simp
  then have "\<exists>M. set_mset M \<subseteq> set [1000000000 :: int] \<and> 3000000000 \<le> sum_mset M \<and>
        sum_mset M \<le> 3000000000 + Max (set [1000000000]) \<and> int (size M) < 2147483647"
    by (rule exI)
  from Calculate_feasible [of 3000000000 "[1000000000]", OF _ _ _ _ disjI2 [OF this]]
  have b: "\<exists>r. Calculate 3000000000 [1000000000] = Some (Inr r) \<and> r \<noteq> empty_result \<and>
          3000000000 \<le> TotalItems r \<and> TotalItems r \<le> 4000000000 \<and>
          total_items (PackCounts r) = TotalItems r"
    by auto
  show ?thesis using run a b by blast
qed

text \<open>
  Claim C1, as the specification states it, promises the optimal result for every
  positive order quantity. For the single size 1 and the order quantity \<open>2^31\<close> the
  total \<open>2^31\<close> is a sum of packs, yet the result is the empty one, with \<open>TotalItems = 0\<close>
  below the order.
\<close>

theorem Calculate_not_optimal_beyond_sentinel:
  "Calculate 2147483648 [1] =
     Some (Inr \<lparr>PackCounts = Map.empty, TotalItems = 0, TotalPacks = 0, Waste = 0\<rparr>)
   \<and> set_mset (replicate_mset 2147483648 1) \<subseteq> set [1]
   \<and> sum_mset (replicate_mset 2147483648 1) = (2147483648 :: int)"
  using Calculate_ones_beyond_sentinel [of 2147483648] by (simp add: empty_result_def)

text \<open>
  Claim C1, amended. Take a positive order quantity and a non-empty list of strictly
  positive pack sizes with \<open>order + maxSize + 1\<close> at most \<open>2^45\<close> (the length of the
  tables is one \<open>make\<close> accepts), and let the order quantity be at most \<open>2^31 - 2\<close> or,
  failing that, let the least total of packs that covers the order be the sum of fewer
  than \<open>2^31 - 1\<close> packs. Then the result of \<open>Calculate\<close> is optimal. Its \<open>PackCounts\<close> is a
  multiset of the given sizes (positive counts on given sizes) with total \<open>TotalItems\<close>, at
  least the order quantity, in \<open>TotalPacks\<close> packs; every multiset \<open>M\<close> of the given sizes
  whose total is at least the order quantity has a total of at least \<open>TotalItems\<close>, and if
  its total is \<open>TotalItems\<close> it has at least \<open>TotalPacks\<close> packs.
\<close>

theorem Calculate_optimal:
  assumes "0 < order" and "packSizes \<noteq> []"
    and "\<forall>sz \<in> set packSizes. 0 < sz"
    and "order + Max (set packSizes) \<le> 35184372088831"
    and "order \<le> 2147483646 \<or>
         (\<exists>L. set_mset L \<subseteq> set packSizes \<and> order \<le> sum_mset L \<and>
              int (size L) < 2147483647 \<and>
              (\<forall>M. set_mset M \<subseteq> set packSizes \<and> order \<le> sum_mset M \<longrightarrow>
                 sum_mset L \<le> sum_mset M))"
  shows "\<exists>r. Calculate order packSizes = Some (Inr r) \<and>
           order \<le> TotalItems r \<and>
           dom (PackCounts r) \<subseteq> set packSizes \<and>
           (\<forall>sz \<in> dom (PackCounts r). 0 < the (PackCounts r sz)) \<and>
           total_items (PackCounts r) = TotalItems r \<and>
           total_packs (PackCounts r) = TotalPacks r \<and>
           (\<forall>M. set_mset M \<subseteq> set packSizes \<and> order \<le> sum_mset M \<longrightarrow>
              TotalItems r \<le> sum_mset M \<and>
              (sum_mset M = TotalItems r \<longrightarrow> TotalPacks r \<le> int (size M)))"
proof -
  have few: "order \<le> 2147483646 \<or>
            (\<exists>q. set q \<subseteq> set packSizes \<and> order \<le> sum_list q \<and> int (length q) < MaxInt32 \<and>
               (\<forall>qs. set qs \<subseteq> set packSizes \<and> order \<le> sum_list qs \<longrightarrow>
                  sum_list q \<le> sum_list qs))"
    using assms(5)
  proof
    assume "order \<le> 2147483646"
    then show ?thesis by simp
  next
    assume "\<exists>L. set_mset L \<subseteq> set packSizes \<and> order \<le> sum_mset L \<and>
              int (size L) < 2147483647 \<and>
              (\<forall>M. set_mset M \<subseteq> set packSizes \<and> order \<le> sum_mset M \<longrightarrow>
                 sum_mset L \<le> sum_mset M)"
    then obtain L where L: "set_mset L \<subseteq> set packSizes" "order \<le> sum_mset L"
      "int (size L) < 2147483647"
      and least: "\<And>M. set_mset M \<subseteq> set packSizes \<Longrightarrow> order \<le> sum_mset M \<Longrightarrow>
                    sum_mset L \<le> sum_mset M"
      by blast
    from list_of_mset [of L]
    obtain q where q: "set q = set_mset L" "sum_list q = sum_mset L" "length q = size L"
      by blast
    have "sum_list q \<le> sum_list qs" if "set qs \<subseteq> set packSizes" "order \<le> sum_list qs" for qs
      using least [of "mset qs"] that q(2) by (simp add: sum_mset_sum_list)
    then have "set q \<subseteq> set packSizes \<and> order \<le> sum_list q \<and> int (length q) < MaxInt32 \<and>
               (\<forall>qs. set qs \<subseteq> set packSizes \<and> order \<le> sum_list qs \<longrightarrow>
                  sum_list q \<le> sum_list qs)"
      using L q by (simp add: MaxInt32_def)
    then show ?thesis by blast
  qed
  from Calculate_minimal [OF assms(1-4) few]
  obtain r where r: "Calculate order packSizes = Some (Inr r)" "order \<le> TotalItems r"
    "dom (PackCounts r) \<subseteq> set packSizes"
    "\<forall>sz \<in> dom (PackCounts r). 0 < the (PackCounts r sz)"
    "total_items (PackCounts r) = TotalItems r" "total_packs (PackCounts r) = TotalPacks r"
    and best: "\<And>qs. set qs \<subseteq> set packSizes \<Longrightarrow> order \<le> sum_list qs \<Longrightarrow>
              TotalItems r \<le> sum_list qs \<and>
              (sum_list qs = TotalItems r \<longrightarrow> TotalPacks r \<le> int (length qs))"
    by blast
  have "TotalItems r \<le> sum_mset M \<and>
          (sum_mset M = TotalItems r \<longrightarrow> TotalPacks r \<le> int (size M))"
    if M: "set_mset M \<subseteq> set packSizes" "order \<le> sum_mset M" for M
  proof -
    from list_of_mset [of M]
    obtain qs where "set qs = set_mset M" "sum_list qs = sum_mset M" "length qs = size M"
      by blast
    then show ?thesis using best [of qs] M by simp
  qed
  then show ?thesis using r by (intro exI [of _ r]) simp
qed

theorem Calculate_optimal_witness:
  "(\<exists>r. Calculate 10 [3, 5] = Some (Inr r) \<and> PackCounts r = [5 \<mapsto> 2] \<and>
        TotalItems r = 10 \<and> TotalPacks r = 2 \<and>
        TotalItems r \<le> sum_mset {#3, 3, 3, 3#} \<and> TotalPacks r \<le> int (size {#5 :: int, 5#}))
   \<and> (\<exists>r. Calculate 2147483648 [2147483648] = Some (Inr r) \<and>
        TotalItems r = 2147483648 \<and> TotalPacks r \<le> 1)"
proof -
  have run: "Calculate 10 [3, 5] =
     Some (Inr \<lparr>PackCounts = [5 \<mapsto> 2], TotalItems = 10, TotalPacks = 2, Waste = 0\<rparr>)"
    by (rule Calculate_rule_priority)
  from Calculate_optimal [of 10 "[3, 5]"]
  obtain r where r: "Calculate 10 [3, 5] = Some (Inr r)"
    and best: "\<forall>M. set_mset M \<subseteq> set [3, 5] \<and> 10 \<le> sum_mset M \<longrightarrow>
              TotalItems r \<le> sum_mset M \<and>
              (sum_mset M = TotalItems r \<longrightarrow> TotalPacks r \<le> int (size M))"
    by auto
  have v: "PackCounts r = [5 \<mapsto> 2]" "TotalItems r = 10" "TotalPacks r = 2"
    using r run by auto
  have "TotalItems r \<le> sum_mset {#3, 3, 3, 3#}"
    using best [rule_format, of "{#3, 3, 3, 3#}"] by simp
  moreover have "TotalPacks r \<le> int (size {#5 :: int, 5#})"
    using best [rule_format, of "{#5, 5#}"] v by simp
  ultimately have a: "\<exists>r. Calculate 10 [3, 5] = Some (Inr r) \<and> PackCounts r = [5 \<mapsto> 2] \<and>
        TotalItems r = 10 \<and> TotalPacks r = 2 \<and>
        TotalItems r \<le> sum_mset {#3, 3, 3, 3#} \<and> TotalPacks r \<le> int (size {#5 :: int, 5#})"
    using r v by blast
  have "set_mset {#2147483648 :: int#} \<subseteq> set [2147483648] \<and>
        2147483648 \<le> sum_mset {#2147483648 :: int#} \<and>
        int (size {#2147483648 :: int#}) < 2147483647 \<and>
        (\<forall>M. set_mset M \<subseteq> set [2147483648] \<and> 2147483648 \<le> sum_mset M \<longrightarrow>
           sum_mset {#2147483648 :: int#} \<le> sum_mset M)"
    by simp
  then have "\<exists>L. set_mset L \<subseteq> set [2147483648 :: int] \<and> 2147483648 \<le> sum_mset L \<and>
        int (size L) < 2147483647 \<and>
        (\<forall>M. set_mset M \<subseteq> set [2147483648] \<and> 2147483648 \<le> sum_mset M \<longrightarrow>
           sum_mset L \<le> sum_mset M)"
    by (rule exI)
  from Calculate_optimal [of 2147483648 "[2147483648]", OF _ _ _ _ disjI2 [OF this]]
  obtain r' where r': "Calculate 2147483648 [2147483648] = Some (Inr r')"
    "2147483648 \<le> TotalItems r'"
    and best': "\<forall>M. set_mset M \<subseteq> set [2147483648] \<and> 2147483648 \<le> sum_mset M \<longrightarrow>
              TotalItems r' \<le> sum_mset M \<and>
              (sum_mset M = TotalItems r' \<longrightarrow> TotalPacks r' \<le> int (size M))"
    by auto
  have t: "TotalItems r' \<le> 2147483648"
    using best' [rule_format, of "{#2147483648#}"] by simp
  then have e: "TotalItems r' = 2147483648" using r'(2) by simp
  have "TotalPacks r' \<le> 1"
    using best' [rule_format, of "{#2147483648#}"] e by simp
  then have b: "\<exists>r. Calculate 2147483648 [2147483648] = Some (Inr r) \<and>
        TotalItems r = 2147483648 \<and> TotalPacks r \<le> 1"
    using r'(1) e by blast
  show ?thesis using a b by blast
qed

section \<open>The given scenario\<close>

text \<open>
  Claim C4. \<open>Calculate(500000, [23, 31, 53])\<close> returns exactly the pack counts
  23: 2, 31: 7 and 53: 9429, with \<open>TotalItems = 500000\<close> and \<open>Waste = 0\<close> (and
  \<open>TotalPacks = 9438\<close>). The table of half a million rows is not evaluated: the result
  follows from optimality, since 2, 7 and 9429 are the only counts that reach 500000 in
  at most 9438 packs.
\<close>

theorem Calculate_given_scenario:
  "Calculate 500000 [23, 31, 53] =
     Some (Inr \<lparr>PackCounts = [23 \<mapsto> 2, 31 \<mapsto> 7, 53 \<mapsto> 9429], TotalItems = 500000,
                TotalPacks = 9438, Waste = 0\<rparr>)"
proof -
  from Calculate_positive [of 500000 "[23, 31, 53]"]
  obtain r where run: "Calculate 500000 [23, 31, 53] = Some (Inr r)"
    and ti: "500000 \<le> TotalItems r" and w: "Waste r = TotalItems r - 500000"
    and d: "dom (PackCounts r) \<subseteq> {23, 31, 53}"
    and p: "\<forall>s \<in> dom (PackCounts r). 0 < the (PackCounts r s)"
    and s: "total_items (PackCounts r) = TotalItems r" "total_packs (PackCounts r) = TotalPacks r"
    and best: "\<And>qs. set qs \<subseteq> {23, 31, 53} \<Longrightarrow> 500000 \<le> sum_list qs \<Longrightarrow>
              TotalItems r \<le> sum_list qs \<and>
              (sum_list qs = TotalItems r \<longrightarrow> TotalPacks r \<le> int (length qs))"
    by auto
  let ?qs = "replicate 2 23 @ replicate 7 31 @ replicate 9429 (53 :: int)"
  have q: "set ?qs \<subseteq> {23, 31, 53}" "sum_list ?qs = 500000" "int (length ?qs) = 9438"
    by (simp_all add: sum_list_replicate)
  have T: "TotalItems r = 500000" using best [OF q(1)] q(2) ti by simp
  have P: "TotalPacks r \<le> 9438" using best [OF q(1)] q(2,3) T by simp
  let ?pc = "PackCounts r"
  define a where "a = (case ?pc 23 of None \<Rightarrow> 0 | Some c \<Rightarrow> c)"
  define b where "b = (case ?pc 31 of None \<Rightarrow> 0 | Some c \<Rightarrow> c)"
  define c where "c = (case ?pc 53 of None \<Rightarrow> 0 | Some c \<Rightarrow> c)"
  have nn: "0 \<le> a" "0 \<le> b" "0 \<le> c"
    using p unfolding a_def b_def c_def by (auto split: option.splits simp: dom_def less_imp_le)
  have e1: "23 * a + 31 * b + 53 * c = 500000"
    using total_on_superset(1) [OF _ d] s(1) T by (simp add: a_def b_def c_def)
  have e2: "a + b + c = TotalPacks r"
    using total_on_superset(2) [OF _ d] s(2) by (simp add: a_def b_def c_def)
  have "30 * a + 22 * b + 53 * (9438 - (a + b + c)) = 214" using e1 by simp
  from dioph_small [OF this nn(1,2)] e2 P
  have v: "a = 2" "b = 7" "c = 9429" by auto
  have pc: "?pc = [23 \<mapsto> 2, 31 \<mapsto> 7, 53 \<mapsto> 9429]"
  proof
    fix x
    show "?pc x = [23 \<mapsto> 2, 31 \<mapsto> 7, 53 \<mapsto> 9429] x"
      using v d unfolding a_def b_def c_def
      by (cases "x \<in> {23, 31, 53}") (auto split: option.splits)
  qed
  have "r = \<lparr>PackCounts = [23 \<mapsto> 2, 31 \<mapsto> 7, 53 \<mapsto> 9429], TotalItems = 500000,
                TotalPacks = 9438, Waste = 0\<rparr>"
    using pc T w e2 v by (cases r) simp
  then show ?thesis using run by simp
qed

section \<open>The cache key\<close>

text \<open>
  Claim C5, as the specification states it, promises the same key for two lists that denote
  the same set of sizes, also when they differ in duplicate entries. \<open>generateKey\<close> sorts
  but removes nothing: \<open>[1, 1, 2]\<close> and \<open>[1, 2]\<close> are hashed from the strings
  \<open>5:[1 1 2]\<close> and \<open>5:[1 2]\<close> and get different keys.
\<close>

theorem generateKey_duplicates_differ:
  "generateKey 5 [1, 1, 2] \<noteq> generateKey 5 [1, 2] \<and> set [1, 1, 2 :: int] = set [1, 2]"
  by code_simp

text \<open>
  Claim C5, amended. For every quantity, two pack-size lists that are permutations of each
  other get the same key. The key is the prefix \<open>packcalc:\<close> followed by the first 16
  bytes, in hexadecimal, of the SHA-256 digest of the string \<open>key_data\<close>, and that string
  is the same for two requests exactly when the quantities are equal and the lists are
  permutations of each other (duplicates count). So any change to the quantity or to the
  sizes changes the hashed string; the keys then differ unless the truncated digests
  collide.
\<close>

theorem generateKey_canonical:
  "(mset packSizes = mset packSizes' \<longrightarrow> generateKey q packSizes = generateKey q packSizes')
   \<and> (key_data q packSizes = key_data q' packSizes' \<longleftrightarrow> q = q' \<and> mset packSizes = mset packSizes')
   \<and> generateKey q packSizes =
       CacheKeyPrefix @ fmt_x (take 16 (sha256 (bytes_of_string (key_data q packSizes))))"
  using generateKey_perm [of packSizes packSizes' q] key_data_inj [of q packSizes q' packSizes']
  by (simp add: generateKey_def)

theorem generateKey_canonical_witness:
  "generateKey 250 [250, 500, 1000] = generateKey 250 [1000, 500, 250]
   \<and> key_data 250 [250, 500] \<noteq> key_data 251 [250, 500]
   \<and> key_data 250 [250, 500] \<noteq> key_data 250 [250, 500, 1000]"
  using generateKey_canonical [of "[250, 500, 1000]" "[1000, 500, 250]" 250 250]
    generateKey_canonical [of "[250, 500]" "[250, 500]" 250 251]
    generateKey_canonical [of "[250, 500]" "[250, 500, 1000]" 250 250]
  by simp

section \<open>Growth of the time to live\<close>

text \<open>
  Claim C6. On a cache that is switched on and whose store answers, after \<open>Set\<close> has
  stored an entry (with \<open>HitCount = 0\<close> and \<open>CurrentTTL = InitialTTL\<close>) the first \<open>Get\<close>
  for the same quantity and pack sizes returns that entry with \<open>HitCount = 1\<close> and
  \<open>CurrentTTL = min (2 * InitialTTL) MaxTTL\<close>. The \<open>n\<close>-th \<open>Get\<close> in a row returns it with
  \<open>CurrentTTL = min (2^n * InitialTTL) MaxTTL\<close>, which is at most \<open>MaxTTL\<close>. And in
  every state of any cache, an entry returned by \<open>Get\<close> has \<open>CurrentTTL\<close> at most
  \<open>MaxTTL\<close>.
\<close>

theorem Get_after_Set:
  assumes "enabled c" and "reachable (client c)"
  shows "(\<exists>r c'. Get (snd (Set c items packSizes result totalItems totalPacks waste calcTime now))
                  items packSizes = (Some r, c') \<and>
            HitCount r = 1 \<and> CurrentTTL r = min (2 * InitialTTL) MaxTTL \<and>
            Items r = items \<and> PackSizes r = packSizes \<and> Result r = result \<and>
            CachedResult.TotalItems r = totalItems \<and> CachedResult.TotalPacks r = totalPacks \<and>
            CachedResult.Waste r = waste \<and> CalculationTimeMs r = calcTime \<and> CachedAt r = now)
         \<and> (\<forall>n. \<exists>r c'. Get_repeated (Suc n)
                    (snd (Set c items packSizes result totalItems totalPacks waste calcTime now))
                    items packSizes = (Some r, c') \<and>
                CurrentTTL r = min (2 ^ Suc n * InitialTTL) MaxTTL \<and> CurrentTTL r \<le> MaxTTL)
         \<and> (\<forall>c0 items0 packSizes0 r c'.
                Get c0 items0 packSizes0 = (Some r, c') \<longrightarrow> CurrentTTL r \<le> MaxTTL)"
proof (intro conjI allI impI)
  let ?c0 = "snd (Set c items packSizes result totalItems totalPacks waste calcTime now)"
  from Set_holds [OF assms, of items packSizes result totalItems totalPacks waste calcTime now]
  obtain e where e: "holds ?c0 (generateKey items packSizes) e"
    "Items e = items" "PackSizes e = packSizes" "Result e = result"
    "CachedResult.TotalItems e = totalItems" "CachedResult.TotalPacks e = totalPacks"
    "CachedResult.Waste e = waste" "CalculationTimeMs e = calcTime" "CachedAt e = now"
    "HitCount e = 0" "CurrentTTL e = InitialTTL"
    by blast
  note R = Get_repeated_holds [OF e(1) e(10,11)]
  from R [of 0] obtain r c' where r: "Get ?c0 items packSizes = (Some r, c')"
    "CurrentTTL r = min (2 * InitialTTL) MaxTTL" "HitCount r = 1"
    "r\<lparr>HitCount := 0, CurrentTTL := 0\<rparr> = e\<lparr>HitCount := 0, CurrentTTL := 0\<rparr>"
    by auto
  have "Items r = Items e" "PackSizes r = PackSizes e" "Result r = Result e"
    "CachedResult.TotalItems r = CachedResult.TotalItems e"
    "CachedResult.TotalPacks r = CachedResult.TotalPacks e"
    "CachedResult.Waste r = CachedResult.Waste e"
    "CalculationTimeMs r = CalculationTimeMs e" "CachedAt r = CachedAt e"
    using r(4) by (cases r; cases e; simp)+
  then show "\<exists>r c'. Get ?c0 items packSizes = (Some r, c') \<and>
            HitCount r = 1 \<and> CurrentTTL r = min (2 * InitialTTL) MaxTTL \<and>
            Items r = items \<and> PackSizes r = packSizes \<and> Result r = result \<and>
            CachedResult.TotalItems r = totalItems \<and> CachedResult.TotalPacks r = totalPacks \<and>
            CachedResult.Waste r = waste \<and> CalculationTimeMs r = calcTime \<and> CachedAt r = now"
    using r(1-3) e(2-9) by (intro exI [of _ r] exI [of _ c']) simp
next
  fix n
  let ?c0 = "snd (Set c items packSizes result totalItems totalPacks waste calcTime now)"
  from Set_holds [OF assms, of items packSizes result totalItems totalPacks waste calcTime now]
  obtain e where e: "holds ?c0 (generateKey items packSizes) e"
    "HitCount e = 0" "CurrentTTL e = InitialTTL"
    by blast
  from Get_repeated_holds [OF e, of n]
  show "\<exists>r c'. Get_repeated (Suc n) ?c0 items packSizes = (Some r, c') \<and>
          CurrentTTL r = min (2 ^ Suc n * InitialTTL) MaxTTL \<and> CurrentTTL r \<le> MaxTTL"
    by (metis min.cobounded2)
next
  fix c0 items0 packSizes0 r c'
  assume "Get c0 items0 packSizes0 = (Some r, c')"
  then show "CurrentTTL r \<le> MaxTTL" by (rule Get_ttl_capped)
qed

theorem Get_after_Set_witness:
  "\<exists>r c'. Get (snd (Set \<lparr>client = \<lparr>reachable = True, entries = []\<rparr>, enabled = True\<rparr>
                      250 [250, 500] [250 \<mapsto> 1] 250 1 0 0 0))
             250 [250, 500] = (Some r, c') \<and>
          HitCount r = 1 \<and> CurrentTTL r = 600000000000"
  using Get_after_Set [of "\<lparr>client = \<lparr>reachable = True, entries = []\<rparr>, enabled = True\<rparr>"
      250 "[250, 500]" "[250 \<mapsto> 1]" 250 1 0 0 0]
  by (simp add: InitialTTL_def MaxTTL_def) blast

section \<open>The hit rate\<close>

lemma GetStats_fields:
  "Hits (GetStats c) = (if enabled c then redis_get_int64 (client c) StatsHitsKey else 0)"
  "Misses (GetStats c) = (if enabled c then redis_get_int64 (client c) StatsMissesKey else 0)"
  "HitRate (GetStats c) =
     (if enabled c \<and>
         0 < add64 (redis_get_int64 (client c) StatsHitsKey)
               (redis_get_int64 (client c) StatsMissesKey)
      then f64_mul (f64_div (f64_of_int (redis_get_int64 (client c) StatsHitsKey))
                     (f64_of_int (add64 (redis_get_int64 (client c) StatsHitsKey)
                                    (redis_get_int64 (client c) StatsMissesKey)))) 100
      else 0)"
  by (simp_all add: GetStats_def Let_def)

text \<open>
  Claim C7, as the specification states it, gives the hit rate as the fraction
  \<open>hits / (hits + misses)\<close>. \<open>GetStats\<close> multiplies the fraction by 100: after one hit
  and one miss it reports 50, not one half.
\<close>

theorem GetStats_one_hit_one_miss:
  "GetStats \<lparr>client = \<lparr>reachable = True,
                        entries = [(StatsHitsKey, Count 1, 0), (StatsMissesKey, Count 1, 0)]\<rparr>,
             enabled = True\<rparr>
   = \<lparr>Hits = 1, Misses = 1, HitRate = 50, TotalKeys = 2\<rparr>"
  by (simp add: GetStats_def Let_def redis_get_int64_def redis_get_def redis_keys_def
      StatsHitsKey_def StatsMissesKey_def CacheKeyPrefix_def add64_def wrap64_def
      f64_one_of_two)

text \<open>
  Claim C7, amended. \<open>GetStats\<close> returns the hit rate as a percentage, computed in
  \<open>float64\<close>. With \<open>total\<close> the sum of the two counters in 64-bit arithmetic, \<open>HitRate\<close>
  is \<open>float64(hits) / float64(total) * 100\<close> when \<open>total\<close> is positive and 0 otherwise
  (so also when a sum beyond \<open>2^63 - 1\<close> has wrapped around, and when the cache is
  disabled). For counters that are not negative and whose sum is at most \<open>2^63 - 1\<close>,
  this is 0 when \<open>hits + misses = 0\<close>, and when at least one request has been counted it
  is the percentage \<open>100 * hits / (hits + misses)\<close> up to the rounding of \<open>float64\<close>, a
  relative error of at most \<open>2^-50\<close>.
\<close>

theorem GetStats_hit_rate:
  "HitRate (GetStats c) =
     (if 0 < add64 (Hits (GetStats c)) (Misses (GetStats c))
      then f64_mul (f64_div (f64_of_int (Hits (GetStats c)))
                     (f64_of_int (add64 (Hits (GetStats c)) (Misses (GetStats c))))) 100
      else 0)
   \<and> (0 \<le> Hits (GetStats c) \<and> 0 \<le> Misses (GetStats c) \<and>
      Hits (GetStats c) + Misses (GetStats c) \<le> 9223372036854775807 \<longrightarrow>
        (Hits (GetStats c) + Misses (GetStats c) = 0 \<longrightarrow> HitRate (GetStats c) = 0) \<and>
        (0 < Hits (GetStats c) + Misses (GetStats c) \<longrightarrow>
           \<bar>HitRate (GetStats c) -
              100 * of_int (Hits (GetStats c)) / of_int (Hits (GetStats c) + Misses (GetStats c))\<bar>
           \<le> 100 * of_int (Hits (GetStats c)) / of_int (Hits (GetStats c) + Misses (GetStats c))
               / 2 ^ 50))"
proof -
  define h where "h = Hits (GetStats c)"
  define m where "m = Misses (GetStats c)"
  have rate: "HitRate (GetStats c) =
     (if 0 < add64 h m then f64_mul (f64_div (f64_of_int h) (f64_of_int (add64 h m))) 100
      else 0)"
    unfolding h_def m_def by (simp add: GetStats_fields add64_def wrap64_def)
  have exact: "(h + m = 0 \<longrightarrow> HitRate (GetStats c) = 0) \<and>
        (0 < h + m \<longrightarrow>
           \<bar>HitRate (GetStats c) - 100 * of_int h / of_int (h + m)\<bar>
           \<le> 100 * of_int h / of_int (h + m) / 2 ^ 50)"
    if nn: "0 \<le> h" "0 \<le> m" "h + m \<le> 9223372036854775807"
  proof -
    have s: "add64 h m = h + m" using nn by (simp add: add64_def wrap64_id is_int64_def)
    show ?thesis
    proof (cases "0 < h + m")
      case True
      have "HitRate (GetStats c) = f64_mul (f64_div (f64_of_int h) (f64_of_int (h + m))) 100"
        using True by (simp add: rate s)
      then show ?thesis using f64_rate_error [OF nn(1) True] True by simp
    next
      case False
      then show ?thesis by (simp add: rate s)
    qed
  qed
  show ?thesis using rate exact unfolding h_def m_def by blast
qed

theorem GetStats_hit_rate_witness:
  "HitRate (GetStats \<lparr>client = \<lparr>reachable = True,
                        entries = [(StatsHitsKey, Count 19, 0), (StatsMissesKey, Count 1, 0)]\<rparr>,
             enabled = True\<rparr>) = 95
   \<and> HitRate (GetStats \<lparr>client = \<lparr>reachable = True,
                        entries = [(StatsHitsKey, Count 7, 0), (StatsMissesKey, Count 18, 0)]\<rparr>,
             enabled = True\<rparr>) = 7881299347898369 / 281474976710656
   \<and> \<bar>7881299347898369 / 281474976710656 - (28 :: rat)\<bar> \<le> 28 / 2 ^ 50
   \<and> HitRate (GetStats \<lparr>client = \<lparr>reachable = True,
                        entries = [(StatsHitsKey, Count 9223372036854775807, 0),
                                   (StatsMissesKey, Count 1, 0)]\<rparr>,
             enabled = True\<rparr>) = 0"
proof -
  let ?a = "\<lparr>client = \<lparr>reachable = True,
                        entries = [(StatsHitsKey, Count 19, 0), (StatsMissesKey, Count 1, 0)]\<rparr>,
             enabled = True\<rparr>"
  let ?b = "\<lparr>client = \<lparr>reachable = True,
                        entries = [(StatsHitsKey, Count 7, 0), (StatsMissesKey, Count 18, 0)]\<rparr>,
             enabled = True\<rparr>"
  let ?c = "\<lparr>client = \<lparr>reachable = True,
                        entries = [(StatsHitsKey, Count 9223372036854775807, 0),
                                   (StatsMissesKey, Count 1, 0)]\<rparr>,
             enabled = True\<rparr>"
  have a: "Hits (GetStats ?a) = 19" "Misses (GetStats ?a) = 1"
    by (simp_all add: GetStats_fields redis_get_int64_def redis_get_def
        StatsHitsKey_def StatsMissesKey_def)
  have b: "Hits (GetStats ?b) = 7" "Misses (GetStats ?b) = 18"
    by (simp_all add: GetStats_fields redis_get_int64_def redis_get_def
        StatsHitsKey_def StatsMissesKey_def)
  have c: "Hits (GetStats ?c) = 9223372036854775807" "Misses (GetStats ?c) = 1"
    by (simp_all add: GetStats_fields redis_get_int64_def redis_get_def
        StatsHitsKey_def StatsMissesKey_def)
  have "HitRate (GetStats ?a) = 95"
    using GetStats_hit_rate [of ?a] unfolding a
    by (simp add: add64_def wrap64_def f64_examples)
  moreover have rb: "HitRate (GetStats ?b) = 7881299347898369 / 281474976710656"
    using GetStats_hit_rate [of ?b] unfolding b
    by (simp add: add64_def wrap64_def f64_examples)
  moreover have "\<bar>7881299347898369 / 281474976710656 - (28 :: rat)\<bar> \<le> 28 / 2 ^ 50"
    using GetStats_hit_rate [of ?b] unfolding b rb by simp
  moreover have "HitRate (GetStats ?c) = 0"
    using GetStats_hit_rate [of ?c] unfolding c
    by (simp add: add64_def wrap64_def)
  ultimately show ?thesis by blast
qed

end
